theory Spec2Isabelle
  imports Main "HOL-Library.Word" "HOL-Library.Monad_Syntax"
begin

unbundle bit_operations_syntax

section \<open>Line sequences, ranges and edit operations\<close>

text \<open>
  A line sequence (\<^verbatim>\<open>ILineSequence\<close>) is the list of the lines of a document, without
  their terminators. Line numbers and columns are JavaScript numbers that only ever hold
  integers here; they are modelled as \<^typ>\<open>int\<close>, so that no subtraction is truncated.
  Reading a line outside \<open>1 .. lineCount\<close> is a failure of the accessor (\<open>None\<close>).
\<close>

type_synonym ILineSequence = "string list"

definition getLineCount :: "ILineSequence \<Rightarrow> int" where
  "getLineCount ls = int (length ls)"

definition getLineContent :: "ILineSequence \<Rightarrow> int \<Rightarrow> string option" where
  "getLineContent ls lineNumber =
     (if 1 \<le> lineNumber \<and> lineNumber \<le> int (length ls)
      then Some (ls ! nat (lineNumber - 1)) else None)"

definition getLineLength :: "ILineSequence \<Rightarrow> int \<Rightarrow> int option" where
  "getLineLength ls lineNumber = map_option (\<lambda>l. int (length l)) (getLineContent ls lineNumber)"

definition getLineMaxColumn :: "ILineSequence \<Rightarrow> int \<Rightarrow> int option" where
  "getLineMaxColumn ls lineNumber =
     map_option (\<lambda>l. int (length l) + 1) (getLineContent ls lineNumber)"

record Range =
  startLineNumber :: int
  startColumn :: int
  endLineNumber :: int
  endColumn :: int

definition mkRange :: "int \<Rightarrow> int \<Rightarrow> int \<Rightarrow> int \<Rightarrow> Range" where
  "mkRange sl sc el ec =
     \<lparr>startLineNumber = sl, startColumn = sc, endLineNumber = el, endColumn = ec\<rparr>"

text \<open>The staging buffer (\<^verbatim>\<open>ITextBuffer\<close>): its lines and its line terminator.\<close>

record ITextBuffer =
  tb_lines :: ILineSequence
  tb_EOL :: string

text \<open>\<^verbatim>\<open>IIdentifiedSingleEditOperation\<close>, as \<^verbatim>\<open>EditOperation.replaceMove\<close> builds it.\<close>

record EditOperation =
  e_range :: Range
  e_text :: string
  forceMoveMarkers :: bool

definition replaceMove :: "Range \<Rightarrow> string \<Rightarrow> EditOperation" where
  "replaceMove r t = \<lparr>e_range = r, e_text = t, forceMoveMarkers = True\<rparr>"

text \<open>
  A range is valid in a line sequence when both ends are positions of the sequence
  (a column runs from 1 to the length of its line plus 1) and the start is not after
  the end.
\<close>

definition validRange :: "ILineSequence \<Rightarrow> Range \<Rightarrow> bool" where
  "validRange ls r =
     (1 \<le> startLineNumber r \<and> startLineNumber r \<le> endLineNumber r
      \<and> endLineNumber r \<le> int (length ls)
      \<and> 1 \<le> startColumn r
      \<and> startColumn r \<le> int (length (ls ! nat (startLineNumber r - 1))) + 1
      \<and> 1 \<le> endColumn r
      \<and> endColumn r \<le> int (length (ls ! nat (endLineNumber r - 1))) + 1
      \<and> (startLineNumber r < endLineNumber r \<or> startColumn r \<le> endColumn r))"

text \<open>
  Modelled from the spec: \<^verbatim>\<open>ITextBuffer.getValueInRange(range, EndOfLinePreference.TextDefined)\<close>,
  which is not part of the sources. The value over a range is the text between its two
  positions, the lines joined by the buffer's own terminator ("end-of-line sequence
  taken verbatim from the new content").
\<close>

definition getValueInRange :: "ITextBuffer \<Rightarrow> Range \<Rightarrow> string option" where
  "getValueInRange tb r =
     (let ls = tb_lines tb;
          sl = nat (startLineNumber r - 1); el = nat (endLineNumber r - 1);
          sc = nat (startColumn r - 1); ec = nat (endColumn r - 1)
      in if \<not> validRange ls r then None
         else if sl = el then Some (take (ec - sc) (drop sc (ls ! sl)))
         else Some (drop sc (ls ! sl) @ tb_EOL tb
                    @ concat (map (\<lambda>l. l @ tb_EOL tb) (take (el - sl - 1) (drop (sl + 1) ls)))
                    @ take ec (ls ! el)))"

text \<open>
  Modelled from the spec: applying an edit operation to a document, which the document
  storage does and the sources do not hold. An edit operation is "a half-open
  line/column range in the old content together with the text that replaces it, with
  1-based line numbers and 1-based columns": the lines before the range and after it
  stay, and between them stands the text of the start line before the range, the
  edit's text, and the text of the end line from the range's end on, split into lines
  at \<open>CR LF\<close>, \<open>CR\<close> or \<open>LF\<close>.
\<close>

definition CR :: char where "CR = CHR 0x0D"
definition LF :: char where "LF = CHR 0x0A"

fun dropLF :: "string \<Rightarrow> string" where
  "dropLF [] = []"
| "dropLF (d # ds) = (if d = LF then ds else d # ds)"

function splitLines :: "string \<Rightarrow> string list" where
  "splitLines [] = [[]]"
| "splitLines (c # cs) =
     (if c = CR then [] # splitLines (dropLF cs)
      else if c = LF then [] # splitLines cs
      else (case splitLines cs of [] \<Rightarrow> [[c]] | l # ls \<Rightarrow> (c # l) # ls))"
  by pat_completeness auto
termination
proof (relation "measure length")
  fix c :: char and cs :: string
  show "(dropLF cs, c # cs) \<in> measure length"
    by (cases cs) auto
qed auto

definition applyEdit :: "ILineSequence \<Rightarrow> EditOperation \<Rightarrow> ILineSequence option" where
  "applyEdit ls e =
     (let r = e_range e;
          sl = nat (startLineNumber r - 1); el = nat (endLineNumber r - 1);
          sc = nat (startColumn r - 1); ec = nat (endColumn r - 1)
      in if \<not> validRange ls r then None
         else Some (take sl ls
                    @ splitLines (take sc (ls ! sl) @ e_text e @ drop ec (ls ! el))
                    @ drop (el + 1) ls))"

text \<open>
  The diff engine returns no edit or one edit; a batch of several edits (whose ranges
  would all refer to the old content) is not needed here and is \<open>None\<close>.
\<close>

definition applyEdits :: "ILineSequence \<Rightarrow> EditOperation list \<Rightarrow> ILineSequence option" where
  "applyEdits ls es = (case es of [] \<Rightarrow> Some ls | [e] \<Rightarrow> applyEdit ls e | _ \<Rightarrow> None)"

section \<open>The diff engine: \<^verbatim>\<open>ModelServiceImpl._computeEdits\<close>\<close>

text \<open>
  \<^verbatim>\<open>_commonPrefix\<close>: the loop
  \<^verbatim>\<open>for (let i = 0; i < maxResult && a.getLineContent(aDelta + i) === b.getLineContent(bDelta + i); i++) result++\<close>.
\<close>

function commonPrefix_loop ::
  "ILineSequence \<Rightarrow> int \<Rightarrow> ILineSequence \<Rightarrow> int \<Rightarrow> int \<Rightarrow> int \<Rightarrow> int \<Rightarrow> int option" where
  "commonPrefix_loop a aDelta b bDelta maxResult i result =
     (if i < maxResult then
        (case getLineContent a (aDelta + i) of
           None \<Rightarrow> None
         | Some x \<Rightarrow>
             (case getLineContent b (bDelta + i) of
                None \<Rightarrow> None
              | Some y \<Rightarrow>
                  if x = y
                  then commonPrefix_loop a aDelta b bDelta maxResult (i + 1) (result + 1)
                  else Some result))
      else Some result)"
  by pat_completeness auto
termination
  by (relation "measure (\<lambda>(a, aDelta, b, bDelta, maxResult, i, result). nat (maxResult - i))") auto

definition commonPrefix ::
  "ILineSequence \<Rightarrow> int \<Rightarrow> int \<Rightarrow> ILineSequence \<Rightarrow> int \<Rightarrow> int \<Rightarrow> int option" where
  "commonPrefix a aLen aDelta b bLen bDelta =
     commonPrefix_loop a aDelta b bDelta (min aLen bLen) 0 0"

text \<open>
  \<^verbatim>\<open>_commonSuffix\<close>: the same loop, reading
  \<^verbatim>\<open>a.getLineContent(aDelta + aLen - i)\<close> and \<^verbatim>\<open>b.getLineContent(bDelta + bLen - i)\<close>.
\<close>

function commonSuffix_loop ::
  "ILineSequence \<Rightarrow> int \<Rightarrow> int \<Rightarrow> ILineSequence \<Rightarrow> int \<Rightarrow> int \<Rightarrow> int \<Rightarrow> int \<Rightarrow> int
     \<Rightarrow> int option" where
  "commonSuffix_loop a aLen aDelta b bLen bDelta maxResult i result =
     (if i < maxResult then
        (case getLineContent a (aDelta + aLen - i) of
           None \<Rightarrow> None
         | Some x \<Rightarrow>
             (case getLineContent b (bDelta + bLen - i) of
                None \<Rightarrow> None
              | Some y \<Rightarrow>
                  if x = y
                  then commonSuffix_loop a aLen aDelta b bLen bDelta maxResult (i + 1) (result + 1)
                  else Some result))
      else Some result)"
  by pat_completeness auto
termination
  by (relation "measure (\<lambda>(a, aLen, aDelta, b, bLen, bDelta, maxResult, i, result).
        nat (maxResult - i))") auto

definition commonSuffix ::
  "ILineSequence \<Rightarrow> int \<Rightarrow> int \<Rightarrow> ILineSequence \<Rightarrow> int \<Rightarrow> int \<Rightarrow> int option" where
  "commonSuffix a aLen aDelta b bLen bDelta =
     commonSuffix_loop a aLen aDelta b bLen bDelta (min aLen bLen) 0 0"

text \<open>
  The two ranges \<^verbatim>\<open>_computeEdits\<close> chooses from the number of common leading and
  trailing lines: the range \<open>oldRange\<close> of the document that is replaced, and the range
  \<open>newRange\<close> of the staging buffer whose value replaces it.
\<close>

definition computeRanges ::
  "ILineSequence \<Rightarrow> ILineSequence \<Rightarrow> int \<Rightarrow> int \<Rightarrow> (Range \<times> Range) option" where
  "computeRanges model textBuffer nPrefix nSuffix =
     (let modelLineCount = getLineCount model;
          textBufferLineCount = getLineCount textBuffer
      in if nSuffix > 0 then
           Some (mkRange (nPrefix + 1) 1 (modelLineCount - nSuffix + 1) 1,
                 mkRange (nPrefix + 1) 1 (textBufferLineCount - nSuffix + 1) 1)
         else if nPrefix > 0 then
           do {
             c1 \<leftarrow> getLineMaxColumn model nPrefix;
             c2 \<leftarrow> getLineMaxColumn model modelLineCount;
             l1 \<leftarrow> getLineLength textBuffer nPrefix;
             l2 \<leftarrow> getLineLength textBuffer textBufferLineCount;
             Some (mkRange nPrefix c1 modelLineCount c2,
                   mkRange nPrefix (1 + l1) textBufferLineCount (1 + l2))
           }
         else
           do {
             c2 \<leftarrow> getLineMaxColumn model modelLineCount;
             l2 \<leftarrow> getLineLength textBuffer textBufferLineCount;
             Some (mkRange 1 1 modelLineCount c2,
                   mkRange 1 1 textBufferLineCount (1 + l2))
           })"

text \<open>
  \<^verbatim>\<open>_computeEdits(model, textBuffer)\<close>, on the lines of the document and the staging
  buffer. \<open>None\<close> stands for an accessor that failed.
\<close>

definition computeEdits :: "ILineSequence \<Rightarrow> ITextBuffer \<Rightarrow> EditOperation list option" where
  "computeEdits model textBuffer =
     (let modelLineCount = getLineCount model;
          textBufferLineCount = getLineCount (tb_lines textBuffer)
      in do {
           nPrefix \<leftarrow> commonPrefix model modelLineCount 1
                        (tb_lines textBuffer) textBufferLineCount 1;
           if modelLineCount = textBufferLineCount \<and> nPrefix = modelLineCount then Some []
           else do {
             nSuffix \<leftarrow> commonSuffix model (modelLineCount - nPrefix) nPrefix
                          (tb_lines textBuffer) (textBufferLineCount - nPrefix) nPrefix;
             (oldRange, newRange) \<leftarrow> computeRanges model (tb_lines textBuffer) nPrefix nSuffix;
             t \<leftarrow> getValueInRange textBuffer newRange;
             Some [replaceMove oldRange t]
           }
         })"

text \<open>
  Well-formed inputs: a document or a buffer always has at least one line, no line holds
  a line break, and the terminator of a buffer is \<open>LF\<close> or \<open>CR LF\<close>.
\<close>

definition noBreak :: "string \<Rightarrow> bool" where
  "noBreak l = (CR \<notin> set l \<and> LF \<notin> set l)"

definition wfLines :: "ILineSequence \<Rightarrow> bool" where
  "wfLines ls = (ls \<noteq> [] \<and> list_all noBreak ls)"

definition validEOL :: "string \<Rightarrow> bool" where
  "validEOL e = (e = [LF] \<or> e = [CR, LF])"

text \<open>
  A range is half-open: it holds the positions from its start up to, and without, its
  end. It includes content of line \<open>k\<close> when some position \<open>(k, column)\<close> with
  \<open>column \<ge> 1\<close> lies in it (the lemma \<open>rangeIncludesLine_iff\<close> below says so).
\<close>

definition rangeIncludesLine :: "Range \<Rightarrow> int \<Rightarrow> bool" where
  "rangeIncludesLine r k =
     (startLineNumber r \<le> k
      \<and> (k < endLineNumber r
           \<or> (k = endLineNumber r
                \<and> max 1 (if startLineNumber r = k then startColumn r else 1) < endColumn r)))"

section \<open>Decoding a provider response: the inner loops of \<^verbatim>\<open>_setSemanticTokens\<close>\<close>

text \<open>
  A legend lists the token type names and the modifier names. The theme resolver
  \<^verbatim>\<open>getTokenStyleMetadata(tokenType, tokenModifiers)\<close> is outside the sources and is a
  parameter: it answers a number, or \<open>None\<close> for \<^verbatim>\<open>undefined\<close>. Reading a JavaScript
  array past its end gives \<^verbatim>\<open>undefined\<close>, so the token type handed to the resolver is
  an option.
\<close>

record SemanticColoringLegend =
  tokenTypes :: "string list"
  tokenModifiers :: "string list"

type_synonym theme = "string option \<Rightarrow> string list \<Rightarrow> int option"

text \<open>An area of a response: its line and its data, a \<^verbatim>\<open>Uint32Array\<close> of 5-field tuples.\<close>

record SemanticColoringArea =
  area_line :: int
  area_data :: "32 word list"

record SemanticColoring =
  areas :: "SemanticColoringArea list"

text \<open>
  \<^verbatim>\<open>new MultilineTokens2(area.line, new SparseEncodedTokens(destTokens))\<close>: a start line
  and a \<^verbatim>\<open>Uint32Array\<close> of 4-field tuples.
\<close>

record MultilineTokens2 =
  mt_line :: int
  mt_tokens :: "32 word list"

definition nth_opt :: "'a list \<Rightarrow> nat \<Rightarrow> 'a option" where
  "nth_opt xs i = (if i < length xs then Some (xs ! i) else None)"

text \<open>
  The modifier loop
  \<^verbatim>\<open>for (let modifierIndex = 0; tokenModifierSet !== 0 && modifierIndex < legend.tokenModifiers.length; modifierIndex++)\<close>.
  \<^verbatim>\<open>tokenModifierSet & 1\<close> tests bit 0 of the 32-bit pattern, and
  \<^verbatim>\<open>tokenModifierSet >> 1\<close> is JavaScript's sign-propagating shift of that pattern.
\<close>

function modifiers_loop :: "string list \<Rightarrow> 32 word \<Rightarrow> nat \<Rightarrow> string list \<Rightarrow> string list" where
  "modifiers_loop legendModifiers tokenModifierSet modifierIndex acc =
     (if tokenModifierSet \<noteq> 0 \<and> modifierIndex < length legendModifiers then
        modifiers_loop legendModifiers (signed_drop_bit 1 tokenModifierSet) (modifierIndex + 1)
          (if tokenModifierSet AND 1 \<noteq> 0 then acc @ [legendModifiers ! modifierIndex] else acc)
      else acc)"
  by pat_completeness auto
termination
  by (relation "measure (\<lambda>(legendModifiers, tokenModifierSet, modifierIndex, acc).
        length legendModifiers - modifierIndex)") auto

text \<open>
  The style of the \<open>i\<close>-th source tuple: its type name from the legend, its modifier
  names from the modifier loop, resolved by the theme.
\<close>

definition tokenStyle :: "theme \<Rightarrow> SemanticColoringLegend \<Rightarrow> 32 word list \<Rightarrow> nat \<Rightarrow> int option" where
  "tokenStyle th legend srcTokens i =
     (let srcOffset = 5 * i;
          tokenTypeIndex = srcTokens ! (srcOffset + 3);
          tokenType = nth_opt (tokenTypes legend) (unat tokenTypeIndex);
          tokenModifierSet = srcTokens ! (srcOffset + 4)
      in th tokenType (modifiers_loop (tokenModifiers legend) tokenModifierSet 0 []))"

text \<open>
  The token loop \<^verbatim>\<open>for (let i = 0; i < tokenCount; i++)\<close>, writing the kept tuples into
  \<open>destTokens\<close> at \<open>destOffset\<close>. A number stored into a \<^verbatim>\<open>Uint32Array\<close> is reduced
  modulo \<open>2^32\<close>.
\<close>

function decode_loop ::
  "theme \<Rightarrow> SemanticColoringLegend \<Rightarrow> 32 word list \<Rightarrow> nat \<Rightarrow> nat \<Rightarrow> 32 word list \<Rightarrow> nat
     \<Rightarrow> 32 word list \<times> nat" where
  "decode_loop th legend srcTokens tokenCount i destTokens destOffset =
     (if i < tokenCount then
        (let srcOffset = 5 * i;
             deltaLine = srcTokens ! srcOffset;
             startCharacter = srcTokens ! (srcOffset + 1);
             endCharacter = srcTokens ! (srcOffset + 2)
         in case tokenStyle th legend srcTokens i of
              None \<Rightarrow> decode_loop th legend srcTokens tokenCount (i + 1) destTokens destOffset
            | Some metadata \<Rightarrow>
                decode_loop th legend srcTokens tokenCount (i + 1)
                  (destTokens[destOffset := deltaLine, destOffset + 1 := startCharacter,
                              destOffset + 2 := endCharacter,
                              destOffset + 3 := word_of_int metadata])
                  (destOffset + 4))
      else (destTokens, destOffset))"
  by pat_completeness auto
termination
  by (relation "measure (\<lambda>(th, legend, srcTokens, tokenCount, i, destTokens, destOffset).
        tokenCount - i)") auto

text \<open>
  The body of \<^verbatim>\<open>for (const area of this._currentResponse.areas)\<close>. The data of an area
  holds whole 5-field tuples, so \<^verbatim>\<open>srcTokens.length / 5\<close> is the integer quotient; the
  properties below are stated for such data.
\<close>

definition decodeArea :: "theme \<Rightarrow> SemanticColoringLegend \<Rightarrow> SemanticColoringArea \<Rightarrow> MultilineTokens2" where
  "decodeArea th legend area =
     (let srcTokens = area_data area;
          tokenCount = length srcTokens div 5;
          (destTokens, destOffset) =
             decode_loop th legend srcTokens tokenCount 0 (replicate (4 * tokenCount) 0) 0
      in \<lparr>mt_line = area_line area,
          mt_tokens = (if destOffset \<noteq> length destTokens then take destOffset destTokens
                       else destTokens)\<rparr>)"

text \<open>
  The kept tuples, in the words of the specification: for each source tuple in order,
  nothing when its style does not resolve, and otherwise its line delta, start column,
  end column and style metadata.
\<close>

definition emitTuple :: "theme \<Rightarrow> SemanticColoringLegend \<Rightarrow> 32 word list \<Rightarrow> nat \<Rightarrow> 32 word list" where
  "emitTuple th legend srcTokens i =
     (case tokenStyle th legend srcTokens i of
        None \<Rightarrow> []
      | Some metadata \<Rightarrow>
          [srcTokens ! (5 * i), srcTokens ! (5 * i + 1), srcTokens ! (5 * i + 2),
           word_of_int metadata])"

definition keptTuples :: "theme \<Rightarrow> SemanticColoringLegend \<Rightarrow> 32 word list \<Rightarrow> nat list" where
  "keptTuples th legend srcTokens =
     filter (\<lambda>i. tokenStyle th legend srcTokens i \<noteq> None) [0 ..< length srcTokens div 5]"

section \<open>The classification scheduler: \<^verbatim>\<open>ModelSemanticColoring\<close>\<close>

text \<open>
  A content-change event carries a list of single changes, each a range and a text.
\<close>

record IModelContentChange =
  c_range :: Range
  c_text :: string

record IModelContentChangedEvent =
  changes :: "IModelContentChange list"

text \<open>A provider, as far as the scheduler reads it: the legend \<^verbatim>\<open>getLegend()\<close> answers.\<close>

record SemanticColoringProvider =
  getLegend :: SemanticColoringLegend

text \<open>
  A provider call that has not settled yet, with the variables its two callbacks close
  over: the number that identifies the cancellation token source opened for it, the
  provider's legend, and \<open>pendingChanges\<close>. Its content-change listener lives exactly as
  long as the call is outstanding: both callbacks dispose it.
\<close>

record request =
  r_token :: nat
  r_legend :: SemanticColoringLegend
  r_pendingChanges :: "IModelContentChangedEvent list"

text \<open>
  The state of one \<^verbatim>\<open>ModelSemanticColoring\<close>. The first three fields are the fields of
  the class. \<open>fetchScheduled\<close> is the \<^verbatim>\<open>RunOnceScheduler\<close> \<^verbatim>\<open>_fetchSemanticTokens\<close>:
  whether its timer is armed. \<open>registered\<close> says whether what the constructor registered
  with \<^verbatim>\<open>this._register\<close> (the scheduler and the three listeners) is still alive.
  \<open>requests\<close> are the outstanding provider calls. The remaining fields record the
  effects on the collaborators, oldest first: how many provider calls were made, the
  token sources cancelled, the responses disposed, the errors handed to
  \<^verbatim>\<open>onUnexpectedError\<close>, and the arguments of the calls of
  \<^verbatim>\<open>this._model.setSemanticTokens\<close> (\<open>None\<close> for \<^verbatim>\<open>null\<close>).
\<close>

record ModelSemanticColoring =
  isDisposed :: bool
  currentResponse :: "SemanticColoring option"
  currentRequestCancellationTokenSource :: "nat option"
  fetchScheduled :: bool
  registered :: bool
  requests :: "request list"
  providerCalls :: nat
  cancelledTokens :: "nat list"
  disposedResponses :: "SemanticColoring list"
  unexpectedErrors :: "string list"
  modelSemanticTokens :: "MultilineTokens2 list option list"

text \<open>The constructor: nothing stored, and \<^verbatim>\<open>this._fetchSemanticTokens.schedule(0)\<close>.\<close>

definition newModelSemanticColoring :: ModelSemanticColoring where
  "newModelSemanticColoring =
     \<lparr>isDisposed = False, currentResponse = None,
      currentRequestCancellationTokenSource = None,
      fetchScheduled = True, registered = True, requests = [],
      providerCalls = 0, cancelledTokens = [], disposedResponses = [],
      unexpectedErrors = [], modelSemanticTokens = []\<rparr>"

text \<open>
  Modelled from the spec: \<^verbatim>\<open>RunOnceScheduler.schedule()\<close>, which is not part of the
  sources. "Each trigger (re)arms a fixed debounce window measured from the most recent
  trigger; repeated triggers coalesce into one pending fetch": the scheduler holds at
  most one armed timer.
\<close>

definition schedule :: "ModelSemanticColoring \<Rightarrow> ModelSemanticColoring" where
  "schedule s = s\<lparr>fetchScheduled := True\<rparr>"

definition option_list :: "'a option \<Rightarrow> 'a list" where
  "option_list x = (case x of None \<Rightarrow> [] | Some v \<Rightarrow> [v])"

text \<open>
  \<^verbatim>\<open>dispose()\<close>. \<^verbatim>\<open>super.dispose()\<close> disposes what was registered: the scheduler (its
  timer is cancelled) and the three listeners.
\<close>

definition dispose :: "ModelSemanticColoring \<Rightarrow> ModelSemanticColoring" where
  "dispose s =
     s\<lparr>isDisposed := True,
       disposedResponses := disposedResponses s @ option_list (currentResponse s),
       currentResponse := None,
       cancelledTokens := cancelledTokens s @ option_list (currentRequestCancellationTokenSource s),
       currentRequestCancellationTokenSource := None,
       fetchScheduled := False,
       registered := False\<rparr>"

text \<open>
  \<^verbatim>\<open>_fetchSemanticTokensNow()\<close>. The argument is what \<^verbatim>\<open>_getSemanticColoringProvider()\<close>
  answers at that moment: the first provider registered for the document, if any.
\<close>

definition fetchSemanticTokensNow ::
  "SemanticColoringProvider option \<Rightarrow> ModelSemanticColoring \<Rightarrow> ModelSemanticColoring" where
  "fetchSemanticTokensNow provider s =
     (if currentRequestCancellationTokenSource s \<noteq> None then s
      else case provider of
             None \<Rightarrow> s
           | Some p \<Rightarrow>
               s\<lparr>currentRequestCancellationTokenSource := Some (providerCalls s),
                 requests := requests s @
                    [\<lparr>r_token = providerCalls s, r_legend = getLegend p, r_pendingChanges = []\<rparr>],
                 providerCalls := providerCalls s + 1\<rparr>)"

text \<open>
  The adjustment of the decoded areas to the changes that arrived during the request:
  \<^verbatim>\<open>for (const change of pendingChanges) for (const area of result) for (const singleChange of change.changes) area.applyEdit(singleChange.range, singleChange.text)\<close>.
  \<^verbatim>\<open>MultilineTokens2.applyEdit\<close> is not part of the sources and is the parameter
  \<open>areaApplyEdit\<close>.
\<close>

type_synonym areaEdit = "Range \<Rightarrow> string \<Rightarrow> MultilineTokens2 \<Rightarrow> MultilineTokens2"

definition applySingleChanges :: "areaEdit \<Rightarrow> IModelContentChange list \<Rightarrow> MultilineTokens2 \<Rightarrow> MultilineTokens2" where
  "applySingleChanges areaApplyEdit cs area =
     foldl (\<lambda>a singleChange. areaApplyEdit (c_range singleChange) (c_text singleChange) a) area cs"

definition applyPendingChanges ::
  "areaEdit \<Rightarrow> IModelContentChangedEvent list \<Rightarrow> MultilineTokens2 list \<Rightarrow> MultilineTokens2 list" where
  "applyPendingChanges areaApplyEdit pendingChanges result =
     foldl (\<lambda>res change. map (applySingleChanges areaApplyEdit (changes change)) res)
       result pendingChanges"

text \<open>
  \<^verbatim>\<open>_setSemanticTokens(tokens, legend, pendingChanges)\<close>. \<open>th\<close> is the theme resolver in
  force when the response is decoded.
\<close>

definition setSemanticTokens ::
  "areaEdit \<Rightarrow> theme \<Rightarrow> SemanticColoring option \<Rightarrow> SemanticColoringLegend
     \<Rightarrow> IModelContentChangedEvent list \<Rightarrow> ModelSemanticColoring \<Rightarrow> ModelSemanticColoring" where
  "setSemanticTokens areaApplyEdit th tokens legend pendingChanges s =
     (let s1 = s\<lparr>disposedResponses := disposedResponses s @ option_list (currentResponse s),
                 currentResponse := None\<rparr>
      in if isDisposed s1 then
           s1\<lparr>disposedResponses := disposedResponses s1 @ option_list tokens\<rparr>
         else
           (let s2 = s1\<lparr>currentResponse := tokens\<rparr>
            in case tokens of
                 None \<Rightarrow> s2\<lparr>modelSemanticTokens := modelSemanticTokens s2 @ [None]\<rparr>
               | Some response \<Rightarrow>
                   (let result = map (decodeArea th legend) (areas response)
                    in if pendingChanges \<noteq> [] then
                         (let s3 = schedule s2
                          in s3\<lparr>modelSemanticTokens := modelSemanticTokens s3 @
                                   [Some (applyPendingChanges areaApplyEdit pendingChanges result)]\<rparr>)
                       else
                         s2\<lparr>modelSemanticTokens := modelSemanticTokens s2 @ [Some result]\<rparr>)))"

text \<open>
  What can happen to a scheduler, one event at a time on the single event loop: the
  three triggers (a content change of the document, a change of the provider registry,
  a change of theme), the debounce timer elapsing (with the provider the registry offers
  at that moment), an outstanding provider call settling (resolved with a response or
  with nothing, or rejected with an error), and disposal.
\<close>

datatype event =
    ContentChanged IModelContentChangedEvent
  | ProviderRegistryChanged
  | ThemeChanged
  | DebounceElapsed "SemanticColoringProvider option"
  | ProviderResolved nat "SemanticColoring option"
  | ProviderRejected nat string
  | Disposed

text \<open>
  The listeners the constructor registers call \<^verbatim>\<open>this._fetchSemanticTokens.schedule()\<close>;
  the listener of an outstanding request pushes the event on its \<open>pendingChanges\<close>.
\<close>

definition trigger :: "ModelSemanticColoring \<Rightarrow> ModelSemanticColoring" where
  "trigger s = (if registered s then schedule s else s)"

definition pushPending :: "IModelContentChangedEvent \<Rightarrow> request \<Rightarrow> request" where
  "pushPending e r = r\<lparr>r_pendingChanges := r_pendingChanges r @ [e]\<rparr>"

text \<open>
  The two callbacks of \<^verbatim>\<open>request.then\<close>, for the outstanding request with the given
  token; a settlement of a call that is not outstanding does not occur and changes
  nothing.
\<close>

definition settle ::
  "areaEdit \<Rightarrow> theme \<Rightarrow> nat \<Rightarrow> SemanticColoring option \<Rightarrow> string option
     \<Rightarrow> ModelSemanticColoring \<Rightarrow> ModelSemanticColoring" where
  "settle areaApplyEdit th token res err s =
     (case find (\<lambda>r. r_token r = token) (requests s) of
        None \<Rightarrow> s
      | Some r \<Rightarrow>
          setSemanticTokens areaApplyEdit th res (r_legend r) (r_pendingChanges r)
            (s\<lparr>unexpectedErrors := unexpectedErrors s @ option_list err,
               currentRequestCancellationTokenSource := None,
               requests := filter (\<lambda>r. r_token r \<noteq> token) (requests s)\<rparr>))"

fun step :: "areaEdit \<Rightarrow> theme \<Rightarrow> event \<Rightarrow> ModelSemanticColoring \<Rightarrow> ModelSemanticColoring" where
  "step areaApplyEdit th (ContentChanged e) s =
     (trigger s)\<lparr>requests := map (pushPending e) (requests s)\<rparr>"
| "step areaApplyEdit th ProviderRegistryChanged s = trigger s"
| "step areaApplyEdit th ThemeChanged s = trigger s"
| "step areaApplyEdit th (DebounceElapsed provider) s =
     (if fetchScheduled s then fetchSemanticTokensNow provider (s\<lparr>fetchScheduled := False\<rparr>)
      else s)"
| "step areaApplyEdit th (ProviderResolved token res) s = settle areaApplyEdit th token res None s"
| "step areaApplyEdit th (ProviderRejected token err) s = settle areaApplyEdit th token None (Some err) s"
| "step areaApplyEdit th Disposed s = dispose s"

fun run :: "areaEdit \<Rightarrow> theme \<Rightarrow> event list \<Rightarrow> ModelSemanticColoring \<Rightarrow> ModelSemanticColoring" where
  "run areaApplyEdit th [] s = s"
| "run areaApplyEdit th (ev # evs) s = run areaApplyEdit th evs (step areaApplyEdit th ev s)"

text \<open>
  What holds of a scheduler in every state it can reach: at most one provider call is
  outstanding; what the constructor registered lives until disposal; a disposed scheduler
  has no armed timer and no token source; and while it is not disposed, the token source
  it holds is the one of the outstanding call.
\<close>

definition schedulerInvariant :: "ModelSemanticColoring \<Rightarrow> bool" where
  "schedulerInvariant s =
     (length (requests s) \<le> 1
      \<and> registered s = (\<not> isDisposed s)
      \<and> (isDisposed s \<longrightarrow>
            \<not> fetchScheduled s \<and> currentRequestCancellationTokenSource s = None)
      \<and> (\<not> isDisposed s \<longrightarrow>
            map r_token (requests s) = option_list (currentRequestCancellationTokenSource s)))"

text \<open>
  Modelled from the spec: \<^verbatim>\<open>MultilineTokens2.applyEdit(range, text)\<close>, which is not part
  of the sources. "Each decoded area must have every accumulated edit applied to its
  stored coordinate space, using the same range/text semantics as the edit operations":
  a position before the start of the range stays; a position inside the range falls
  onto where the range started; a position at or after its end moves with the text
  that follows the replacement, so a column on the edited line shifts by the inserted
  length. The start of a token moves with text inserted at it and the end of a token
  does not; a token left empty or split over two lines is dropped.
\<close>

definition posBefore :: "int \<times> int \<Rightarrow> int \<times> int \<Rightarrow> bool" where
  "posBefore p q = (fst p < fst q \<or> (fst p = fst q \<and> snd p < snd q))"

definition movePosition :: "Range \<Rightarrow> string \<Rightarrow> bool \<Rightarrow> int \<times> int \<Rightarrow> int \<times> int" where
  "movePosition r t isEnd p =
     (let rangeStart = (startLineNumber r, startColumn r);
          rangeEnd = (endLineNumber r, endColumn r);
          eolCount = int (length (splitLines t)) - 1;
          after = (if eolCount = 0 then (fst rangeStart, snd rangeStart + int (length t))
                   else (fst rangeStart + eolCount, 1 + int (length (last (splitLines t)))))
      in if posBefore p rangeStart \<or> (isEnd \<and> p = rangeStart) then p
         else if posBefore p rangeEnd then (if isEnd then rangeStart else after)
         else if fst p = fst rangeEnd then (fst after, snd after + (snd p - snd rangeEnd))
         else (fst after + (fst p - fst rangeEnd), snd p))"

fun moveTokens :: "Range \<Rightarrow> string \<Rightarrow> int \<Rightarrow> int \<Rightarrow> 32 word list \<Rightarrow> 32 word list" where
  "moveTokens r t line line' (deltaLine # startCharacter # endCharacter # metadata # rest) =
     (let tokenStart = movePosition r t False (line + uint deltaLine, uint startCharacter + 1);
          tokenEnd = movePosition r t True (line + uint deltaLine, uint endCharacter + 1)
      in (if fst tokenStart = fst tokenEnd \<and> snd tokenStart < snd tokenEnd
          then [word_of_int (fst tokenStart - line'), word_of_int (snd tokenStart - 1),
                word_of_int (snd tokenEnd - 1), metadata]
          else [])
         @ moveTokens r t line line' rest)"
| "moveTokens r t line line' rest = []"

definition MultilineTokens2_applyEdit :: areaEdit where
  "MultilineTokens2_applyEdit r t area =
     (let line' = fst (movePosition r t False (mt_line area, 1))
      in \<lparr>mt_line = line', mt_tokens = moveTokens r t (mt_line area) line' (mt_tokens area)\<rparr>)"

section \<open>The bulk update: \<^verbatim>\<open>ModelServiceImpl.updateModel\<close>\<close>

text \<open>
  The document (\<^verbatim>\<open>ITextModel\<close>) as \<^verbatim>\<open>updateModel\<close> uses it: its lines, its terminator,
  and the calls that change it, recorded in the order they are made.
\<close>

datatype EndOfLineSequence = EOL_LF | EOL_CRLF

datatype modelCall =
    PushStackElement
  | PushEOL EndOfLineSequence
  | PushEditOperations "EditOperation list"

record ITextModel =
  m_lines :: ILineSequence
  m_EOL :: string
  m_calls :: "modelCall list"

text \<open>
  Modelled from the spec: the document operations \<^verbatim>\<open>equalsTextBuffer\<close>,
  \<^verbatim>\<open>pushStackElement\<close>, \<^verbatim>\<open>pushEOL\<close> and \<^verbatim>\<open>pushEditOperations\<close>, which are not part
  of the sources. The staging buffer is "content-equal" to the document when both hold
  the same lines with the same terminator; a pushed end-of-line change sets the
  document's terminator; pushed edits are applied to its lines (edits that do not
  apply leave them as they are). Every call is recorded.
\<close>

definition equalsTextBuffer :: "ITextModel \<Rightarrow> ITextBuffer \<Rightarrow> bool" where
  "equalsTextBuffer model textBuffer =
     (m_lines model = tb_lines textBuffer \<and> m_EOL model = tb_EOL textBuffer)"

definition pushStackElement :: "ITextModel \<Rightarrow> ITextModel" where
  "pushStackElement model = model\<lparr>m_calls := m_calls model @ [PushStackElement]\<rparr>"

definition pushEOL :: "EndOfLineSequence \<Rightarrow> ITextModel \<Rightarrow> ITextModel" where
  "pushEOL eol model =
     model\<lparr>m_EOL := (case eol of EOL_LF \<Rightarrow> [LF] | EOL_CRLF \<Rightarrow> [CR, LF]),
           m_calls := m_calls model @ [PushEOL eol]\<rparr>"

definition pushEditOperations :: "EditOperation list \<Rightarrow> ITextModel \<Rightarrow> ITextModel" where
  "pushEditOperations edits model =
     model\<lparr>m_lines := (case applyEdits (m_lines model) edits of
                         None \<Rightarrow> m_lines model | Some ls \<Rightarrow> ls),
           m_calls := m_calls model @ [PushEditOperations edits]\<rparr>"

text \<open>
  \<^verbatim>\<open>updateModel(model, value)\<close>, from the staging buffer
  \<^verbatim>\<open>createTextBuffer(value, options.defaultEOL)\<close> on, which is the parameter
  \<open>textBuffer\<close>. \<open>None\<close> stands for a failure inside \<^verbatim>\<open>_computeEdits\<close>.
\<close>

definition updateModel :: "ITextModel \<Rightarrow> ITextBuffer \<Rightarrow> ITextModel option" where
  "updateModel model textBuffer =
     (if equalsTextBuffer model textBuffer then Some model
      else
        (let model1 = pushStackElement model;
             model2 = pushEOL (if tb_EOL textBuffer = [CR, LF] then EOL_CRLF else EOL_LF) model1
         in do {
              edits \<leftarrow> computeEdits (m_lines model2) textBuffer;
              Some (pushStackElement (pushEditOperations edits model2))
            }))"







section \<open>Properties of the diff engine\<close>

lemma commonPrefix_loop_spec:
  assumes "0 \<le> i" "i \<le> maxResult" "maxResult \<le> int (length a)" "maxResult \<le> int (length b)"
    and "take (nat i) a = take (nat i) b" "result = i"
  shows "\<exists>r. commonPrefix_loop a 1 b 1 maxResult i result = Some r \<and> i \<le> r \<and> r \<le> maxResult
            \<and> take (nat r) a = take (nat r) b
            \<and> (r < maxResult \<longrightarrow> a ! nat r \<noteq> b ! nat r)"
  using assms
proof (induction a "1::int" b "1::int" maxResult i result rule: commonPrefix_loop.induct)
  case (1 a b maxResult i result)
  show ?case
  proof (cases "i < maxResult")
    case False
    with 1 show ?thesis by (simp add: commonPrefix_loop.simps [of a 1 b 1 maxResult i result])
  next
    case True
    have ga: "getLineContent a (1 + i) = Some (a ! nat i)"
      using 1 True by (simp add: getLineContent_def)
    have gb: "getLineContent b (1 + i) = Some (b ! nat i)"
      using 1 True by (simp add: getLineContent_def)
    show ?thesis
    proof (cases "a ! nat i = b ! nat i")
      case False
      with 1 True ga gb show ?thesis
        by (simp add: commonPrefix_loop.simps [of a 1 b 1 maxResult i result])
    next
      case eq: True
      have ia: "nat i < length a" and ib: "nat i < length b" using 1 True by auto
      have tk: "take (nat (i + 1)) a = take (nat (i + 1)) b"
        using 1(6) eq ia ib 1(2)
        by (simp add: nat_add_distrib take_Suc_conv_app_nth)
      have "\<exists>r. commonPrefix_loop a 1 b 1 maxResult (i + 1) (result + 1) = Some r \<and> i + 1 \<le> r \<and> r \<le> maxResult
            \<and> take (nat r) a = take (nat r) b
            \<and> (r < maxResult \<longrightarrow> a ! nat r \<noteq> b ! nat r)"
        using 1(1) [OF True ga gb eq] 1 True tk by simp
      then show ?thesis
        using True ga gb eq
        by (subst commonPrefix_loop.simps) auto
    qed
  qed
qed

lemma commonSuffix_loop_spec:
  assumes "0 \<le> i" "i \<le> maxResult" "maxResult \<le> aLen" "maxResult \<le> bLen"
    and "0 \<le> aDelta" "0 \<le> bDelta"
    and "aDelta + aLen = int (length a)" "bDelta + bLen = int (length b)"
    and "drop (length a - nat i) a = drop (length b - nat i) b" "result = i"
  shows "\<exists>r. commonSuffix_loop a aLen aDelta b bLen bDelta maxResult i result = Some r
            \<and> i \<le> r \<and> r \<le> maxResult
            \<and> drop (length a - nat r) a = drop (length b - nat r) b"
  using assms
proof (induction a aLen aDelta b bLen bDelta maxResult i result rule: commonSuffix_loop.induct)
  case (1 a aLen aDelta b bLen bDelta maxResult i result)
  show ?case
  proof (cases "i < maxResult")
    case False
    with 1 show ?thesis
      by (simp add: commonSuffix_loop.simps [of a aLen aDelta b bLen bDelta maxResult i result])
  next
    case True
    have ia: "nat i < length a" and ib: "nat i < length b" using 1 True by auto
    have ga: "getLineContent a (aDelta + aLen - i) = Some (a ! (length a - Suc (nat i)))"
      using 1 True ia by (simp add: getLineContent_def nat_diff_distrib' Suc_diff_Suc) 
    have gb: "getLineContent b (bDelta + bLen - i) = Some (b ! (length b - Suc (nat i)))"
      using 1 True ib by (simp add: getLineContent_def nat_diff_distrib')
    show ?thesis
    proof (cases "a ! (length a - Suc (nat i)) = b ! (length b - Suc (nat i))")
      case False
      with 1 True ga gb show ?thesis
        by (simp add: commonSuffix_loop.simps [of a aLen aDelta b bLen bDelta maxResult i result])
    next
      case eq: True
      have da: "drop (length a - Suc (nat i)) a = a ! (length a - Suc (nat i)) # drop (length a - nat i) a"
        using ia by (metis Cons_nth_drop_Suc Suc_diff_Suc diff_less zero_less_Suc length_greater_0_conv list.size(3) not_less_zero)
      have db: "drop (length b - Suc (nat i)) b = b ! (length b - Suc (nat i)) # drop (length b - nat i) b"
        using ib by (metis Cons_nth_drop_Suc Suc_diff_Suc diff_less zero_less_Suc length_greater_0_conv list.size(3) not_less_zero)
      have dr: "drop (length a - nat (i + 1)) a = drop (length b - nat (i + 1)) b"
        using da db eq 1(10) 1(2) by (simp add: nat_add_distrib)
      have "\<exists>r. commonSuffix_loop a aLen aDelta b bLen bDelta maxResult (i + 1) (result + 1) = Some r
            \<and> i + 1 \<le> r \<and> r \<le> maxResult
            \<and> drop (length a - nat r) a = drop (length b - nat r) b"
        using 1(1) [OF True ga gb eq] 1 True dr by simp
      then show ?thesis
        using True ga gb eq
        by (subst commonSuffix_loop.simps) auto
    qed
  qed
qed

lemma splitLines_nonempty: "splitLines t \<noteq> []"
  by (induction t rule: splitLines.induct) (auto split: list.splits)

lemma splitLines_noBreak_append:
  "noBreak h \<Longrightarrow> splitLines (h @ t) = (h @ hd (splitLines t)) # tl (splitLines t)"
proof (induction h)
  case Nil
  then show ?case using splitLines_nonempty [of t] by simp
next
  case (Cons c h)
  then have "c \<noteq> CR" "c \<noteq> LF" "noBreak h" by (auto simp: noBreak_def)
  with Cons.IH show ?case by simp
qed

lemma splitLines_EOL: "validEOL e \<Longrightarrow> splitLines (e @ t) = [] # splitLines t"
  by (auto simp: validEOL_def CR_def LF_def)

lemma splitLines_noBreak: "noBreak h \<Longrightarrow> splitLines h = [h]"
  using splitLines_noBreak_append [of h "[]"] by simp

lemma splitLines_lines_then:
  "list_all noBreak ls \<Longrightarrow> validEOL e \<Longrightarrow>
     splitLines (concat (map (\<lambda>l. l @ e) ls) @ t) = ls @ splitLines t"
  by (induction ls) (simp_all add: splitLines_noBreak_append splitLines_EOL)

lemma splitLines_head_then:
  "noBreak h \<Longrightarrow> list_all noBreak xs \<Longrightarrow> validEOL e \<Longrightarrow>
     splitLines (h @ concat (map (\<lambda>l. e @ l) xs)) = h # xs"
proof (induction xs arbitrary: h)
  case Nil
  then show ?case by (simp add: splitLines_noBreak)
next
  case (Cons x xs)
  then show ?case by (simp add: splitLines_noBreak_append splitLines_EOL)
qed

lemma take_Suc_drop: "p < length B \<Longrightarrow> take (Suc k) (drop p B) = B ! p # take k (drop (Suc p) B)"
  by (metis Cons_nth_drop_Suc take_Suc_Cons)

lemma getValueInRange_wholeLines:
  assumes "p + s \<le> length (tb_lines tb)" "0 < s"
  shows "getValueInRange tb (mkRange (int p + 1) 1 (int (length (tb_lines tb)) - int s + 1) 1)
         = Some (concat (map (\<lambda>l. l @ tb_EOL tb) (take (length (tb_lines tb) - s - p) (drop p (tb_lines tb)))))"
proof -
  let ?B = "tb_lines tb" and ?n = "length (tb_lines tb)"
  let ?r = "mkRange (int p + 1) 1 (int ?n - int s + 1) 1"
  have v: "validRange ?B ?r" using assms by (auto simp: validRange_def mkRange_def)
  have el: "nat (endLineNumber ?r - 1) = ?n - s" using assms by (simp add: mkRange_def nat_diff_distrib')
  have sl: "nat (startLineNumber ?r - 1) = p" by (simp add: mkRange_def)
  have sc: "nat (startColumn ?r - 1) = 0" "nat (endColumn ?r - 1) = 0" by (simp_all add: mkRange_def)
  show ?thesis
  proof (cases "p = ?n - s")
    case True
    then show ?thesis using v el sl sc by (simp add: getValueInRange_def Let_def)
  next
    case False
    then have lt: "p < ?n - s" using assms by arith
    then have "?n - s - p = Suc (?n - s - p - 1)" by arith
    then have "take (?n - s - p) (drop p ?B) = ?B ! p # take (?n - s - p - 1) (drop (Suc p) ?B)"
      using take_Suc_drop [of p ?B "?n - s - p - 1"] lt by simp
    then show ?thesis using v el sl sc False by (simp add: getValueInRange_def Let_def)
  qed
qed

lemma applyEdit_wholeLines:
  assumes "p + s \<le> length A" "0 < s"
  shows "applyEdit A (replaceMove (mkRange (int p + 1) 1 (int (length A) - int s + 1) 1) t)
         = Some (take p A @ splitLines (t @ A ! (length A - s)) @ drop (Suc (length A - s)) A)"
proof -
  let ?r = "mkRange (int p + 1) 1 (int (length A) - int s + 1) 1"
  have v: "validRange A ?r" using assms by (auto simp: validRange_def mkRange_def)
  have el: "nat (endLineNumber ?r - 1) = length A - s" using assms by (simp add: mkRange_def nat_diff_distrib')
  have sl: "nat (startLineNumber ?r - 1) = p" by (simp add: mkRange_def)
  have sc: "nat (startColumn ?r - 1) = 0" "nat (endColumn ?r - 1) = 0" by (simp_all add: mkRange_def)
  show ?thesis using v el sl sc by (simp add: applyEdit_def Let_def replaceMove_def)
qed

lemma joinTail: "xs \<noteq> [] \<Longrightarrow>
   e @ concat (map (\<lambda>l. l @ e) (butlast xs)) @ last xs = concat (map (\<lambda>l. e @ l) xs)"
  by (induction xs) auto

lemma getValueInRange_tail:
  assumes "0 < p" "p \<le> length (tb_lines tb)"
  shows "getValueInRange tb (mkRange (int p) (1 + int (length (tb_lines tb ! (p - 1))))
            (int (length (tb_lines tb))) (1 + int (length (tb_lines tb ! (length (tb_lines tb) - 1)))))
         = Some (concat (map (\<lambda>l. tb_EOL tb @ l) (drop p (tb_lines tb))))"
proof -
  let ?B = "tb_lines tb" and ?n = "length (tb_lines tb)"
  let ?r = "mkRange (int p) (1 + int (length (?B ! (p - 1)))) (int ?n) (1 + int (length (?B ! (?n - 1))))"
  have sl: "nat (startLineNumber ?r - 1) = p - 1" "nat (endLineNumber ?r - 1) = ?n - 1"
    using assms by (simp_all add: mkRange_def nat_diff_distrib')
  have sc: "nat (startColumn ?r - 1) = length (?B ! (p - 1))" "nat (endColumn ?r - 1) = length (?B ! (?n - 1))"
    by (simp_all add: mkRange_def)
  have v: "validRange ?B ?r" using assms sl
    by (cases "p = ?n") (auto simp: validRange_def mkRange_def Suc_le_eq)
  show ?thesis
  proof (cases "p = ?n")
    case True
    then show ?thesis using v sl sc by (simp add: getValueInRange_def Let_def)
  next
    case False
    then have lt: "p < ?n" using assms by arith
    have ne: "drop p ?B \<noteq> []" using lt by simp
    have bl: "butlast (drop p ?B) = take (?n - 1 - (p - 1) - 1) (drop (p - 1 + 1) ?B)"
      using assms lt by (simp add: butlast_conv_take)
    have la: "last (drop p ?B) = ?B ! (?n - 1)"
      using lt by (simp add: last_conv_nth)
    have "p - 1 \<noteq> ?n - 1" using lt assms by arith
    then show ?thesis using v sl sc joinTail [OF ne, of "tb_EOL tb"] bl la
      by (simp add: getValueInRange_def Let_def)
  qed
qed

lemma applyEdit_tail:
  assumes "0 < p" "p \<le> length A"
  shows "applyEdit A (replaceMove (mkRange (int p) (int (length (A ! (p - 1))) + 1)
            (int (length A)) (int (length (A ! (length A - 1))) + 1)) t)
         = Some (take (p - 1) A @ splitLines (A ! (p - 1) @ t))"
proof -
  let ?r = "mkRange (int p) (int (length (A ! (p - 1))) + 1) (int (length A)) (int (length (A ! (length A - 1))) + 1)"
  have sl: "nat (startLineNumber ?r - 1) = p - 1" "nat (endLineNumber ?r - 1) = length A - 1"
    using assms by (simp_all add: mkRange_def nat_diff_distrib')
  have sc: "nat (startColumn ?r - 1) = length (A ! (p - 1))" "nat (endColumn ?r - 1) = length (A ! (length A - 1))"
    by (simp_all add: mkRange_def)
  have v: "validRange A ?r" using assms sl
    by (cases "p = length A") (auto simp: validRange_def mkRange_def Suc_le_eq)
  have dr: "drop (Suc (length A - 1)) A = []" by simp
  show ?thesis using v sl sc dr by (simp add: applyEdit_def Let_def replaceMove_def)
qed

lemma getValueInRange_all:
  assumes "tb_lines tb \<noteq> []"
  shows "getValueInRange tb (mkRange 1 1 (int (length (tb_lines tb))) (1 + int (length (tb_lines tb ! (length (tb_lines tb) - 1)))))
         = Some (hd (tb_lines tb) @ concat (map (\<lambda>l. tb_EOL tb @ l) (tl (tb_lines tb))))"
proof -
  let ?B = "tb_lines tb" and ?n = "length (tb_lines tb)"
  let ?r = "mkRange 1 1 (int ?n) (1 + int (length (?B ! (?n - 1))))"
  have n0: "0 < ?n" using assms by simp
  have sl: "nat (startLineNumber ?r - 1) = 0" "nat (endLineNumber ?r - 1) = ?n - 1"
    using n0 by (simp_all add: mkRange_def nat_diff_distrib')
  have sc: "nat (startColumn ?r - 1) = 0" "nat (endColumn ?r - 1) = length (?B ! (?n - 1))"
    by (simp_all add: mkRange_def)
  have v: "validRange ?B ?r" using n0 sl by (auto simp: validRange_def mkRange_def Suc_le_eq)
  show ?thesis
  proof (cases "?n = 1")
    case True
    then obtain x where "?B = [x]" by (cases ?B) auto
    then show ?thesis using v sl sc by (simp add: getValueInRange_def Let_def)
  next
    case False
    then have lt: "1 < ?n" using n0 by arith
    have ne: "tl ?B \<noteq> []" using lt by (cases ?B) auto
    have bl: "butlast (tl ?B) = take (?n - 1 - 0 - 1) (drop (0 + 1) ?B)"
      using lt by (simp add: butlast_conv_take drop_Suc)
    have la: "last (tl ?B) = ?B ! (?n - 1)"
      using lt ne assms by (metis last_conv_nth last_tl) 
    have h: "?B ! 0 = hd ?B" using assms by (simp add: hd_conv_nth)
    have "0 \<noteq> ?n - 1" using lt by arith
    then show ?thesis using v sl sc joinTail [OF ne, of "tb_EOL tb"] bl la h
      by (simp add: getValueInRange_def Let_def)
  qed
qed

lemma applyEdit_all:
  assumes "A \<noteq> []"
  shows "applyEdit A (replaceMove (mkRange 1 1 (int (length A)) (int (length (A ! (length A - 1))) + 1)) t)
         = Some (splitLines t)"
proof -
  let ?r = "mkRange 1 1 (int (length A)) (int (length (A ! (length A - 1))) + 1)"
  have n0: "0 < length A" using assms by simp
  have sl: "nat (startLineNumber ?r - 1) = 0" "nat (endLineNumber ?r - 1) = length A - 1"
    using n0 by (simp_all add: mkRange_def nat_diff_distrib')
  have sc: "nat (startColumn ?r - 1) = 0" "nat (endColumn ?r - 1) = length (A ! (length A - 1))"
    by (simp_all add: mkRange_def)
  have v: "validRange A ?r" using n0 sl by (auto simp: validRange_def mkRange_def Suc_le_eq)
  have dr: "drop (Suc (length A - 1)) A = []" by simp
  show ?thesis using v sl sc dr by (simp add: applyEdit_def Let_def replaceMove_def)
qed

lemma list_all_take: "list_all P xs \<Longrightarrow> list_all P (take k xs)"
  by (metis append_take_drop_id list_all_append)
lemma list_all_drop: "list_all P xs \<Longrightarrow> list_all P (drop k xs)"
  by (metis append_take_drop_id list_all_append)
lemma list_all_nth: "list_all P xs \<Longrightarrow> k < length xs \<Longrightarrow> P (xs ! k)"
  by (simp add: list_all_length)

lemma roundtrip_wholeLines:
  assumes wfA: "wfLines A" and wfB: "wfLines (tb_lines tb)" and eol: "validEOL (tb_EOL tb)"
    and pre: "take p A = take p (tb_lines tb)"
    and suf: "drop (length A - s) A = drop (length (tb_lines tb) - s) (tb_lines tb)"
    and le: "p + s \<le> length A" "p + s \<le> length (tb_lines tb)" and s: "0 < s"
  shows "\<exists>t. getValueInRange tb (mkRange (int p + 1) 1 (int (length (tb_lines tb)) - int s + 1) 1) = Some t
          \<and> applyEdit A (replaceMove (mkRange (int p + 1) 1 (int (length A) - int s + 1) 1) t)
              = Some (tb_lines tb)"
proof -
  let ?B = "tb_lines tb"
  let ?mid = "take (length ?B - s - p) (drop p ?B)"
  let ?t = "concat (map (\<lambda>l. l @ tb_EOL tb) ?mid)"
  have g: "getValueInRange tb (mkRange (int p + 1) 1 (int (length ?B) - int s + 1) 1) = Some ?t"
    using getValueInRange_wholeLines [OF le(2) s] .
  have nbB: "list_all noBreak ?B" and nbA: "list_all noBreak A" using wfA wfB by (simp_all add: wfLines_def)
  have nbmid: "list_all noBreak ?mid" using nbB by (intro list_all_take list_all_drop)
  have lt: "length A - s < length A" using le s by arith
  have nbx: "noBreak (A ! (length A - s))" using nbA lt by (rule list_all_nth)
  have sp: "splitLines (?t @ A ! (length A - s)) = ?mid @ [A ! (length A - s)]"
    using splitLines_lines_then [OF nbmid eol] splitLines_noBreak [OF nbx] by simp
  have "take p A @ ?mid @ [A ! (length A - s)] @ drop (Suc (length A - s)) A
        = take p A @ ?mid @ drop (length A - s) A"
    using Cons_nth_drop_Suc [OF lt] by simp
  also have "\<dots> = take p ?B @ ?mid @ drop (length ?B - s) ?B" using pre suf by simp
  also have "\<dots> = take (p + (length ?B - s - p)) ?B @ drop (length ?B - s) ?B"
    by (simp add: take_add)
  also have "\<dots> = ?B" using le by simp
  finally have "take p A @ splitLines (?t @ A ! (length A - s)) @ drop (Suc (length A - s)) A = ?B"
    using sp by simp
  then show ?thesis using g applyEdit_wholeLines [OF le(1) s, of ?t] by simp
qed

lemma roundtrip_tail:
  assumes wfA: "wfLines A" and wfB: "wfLines (tb_lines tb)" and eol: "validEOL (tb_EOL tb)"
    and pre: "take p A = take p (tb_lines tb)"
    and le: "p \<le> length A" "p \<le> length (tb_lines tb)" and p: "0 < p"
  shows "\<exists>t. getValueInRange tb (mkRange (int p) (1 + int (length (tb_lines tb ! (p - 1))))
            (int (length (tb_lines tb))) (1 + int (length (tb_lines tb ! (length (tb_lines tb) - 1))))) = Some t
          \<and> applyEdit A (replaceMove (mkRange (int p) (int (length (A ! (p - 1))) + 1)
            (int (length A)) (int (length (A ! (length A - 1))) + 1)) t)
              = Some (tb_lines tb)"
proof -
  let ?B = "tb_lines tb"
  let ?t = "concat (map (\<lambda>l. tb_EOL tb @ l) (drop p ?B))"
  have nbB: "list_all noBreak ?B" and nbA: "list_all noBreak A" using wfA wfB by (simp_all add: wfLines_def)
  have lt: "p - 1 < length A" using le p by arith
  have nbx: "noBreak (A ! (p - 1))" using nbA lt by (rule list_all_nth)
  have sp: "splitLines (A ! (p - 1) @ ?t) = A ! (p - 1) # drop p ?B"
    using splitLines_head_then [OF nbx list_all_drop [OF nbB] eol] .
  have "take (p - 1) A @ [A ! (p - 1)] = take p A"
    using take_Suc_conv_app_nth [OF lt] p by simp
  then have "take (p - 1) A @ A ! (p - 1) # drop p ?B = take p A @ drop p ?B"
    by (metis append.assoc append_Cons append_Nil)
  also have "\<dots> = ?B" using pre by simp
  finally show ?thesis
    using getValueInRange_tail [OF p le(2)] applyEdit_tail [OF p le(1), of ?t] sp by simp
qed

lemma roundtrip_all:
  assumes wfA: "wfLines A" and wfB: "wfLines (tb_lines tb)" and eol: "validEOL (tb_EOL tb)"
  shows "\<exists>t. getValueInRange tb (mkRange 1 1
            (int (length (tb_lines tb))) (1 + int (length (tb_lines tb ! (length (tb_lines tb) - 1))))) = Some t
          \<and> applyEdit A (replaceMove (mkRange 1 1
            (int (length A)) (int (length (A ! (length A - 1))) + 1)) t)
              = Some (tb_lines tb)"
proof -
  let ?B = "tb_lines tb"
  let ?t = "hd ?B @ concat (map (\<lambda>l. tb_EOL tb @ l) (tl ?B))"
  have neB: "?B \<noteq> []" and neA: "A \<noteq> []" using wfA wfB by (simp_all add: wfLines_def)
  have nbB: "list_all noBreak ?B" using wfB by (simp add: wfLines_def)
  have "noBreak (hd ?B)" "list_all noBreak (tl ?B)" using nbB neB by (cases ?B; simp)+
  then have sp: "splitLines ?t = hd ?B # tl ?B" using eol by (rule splitLines_head_then)
  show ?thesis
    using getValueInRange_all [OF neB] applyEdit_all [OF neA, of ?t] sp neB by simp
qed

lemma commonPrefix_spec:
  "\<exists>r. commonPrefix a (int (length a)) 1 b (int (length b)) 1 = Some r \<and> 0 \<le> r
      \<and> r \<le> int (length a) \<and> r \<le> int (length b)
      \<and> take (nat r) a = take (nat r) b
      \<and> (r < min (int (length a)) (int (length b)) \<longrightarrow> a ! nat r \<noteq> b ! nat r)"
  using commonPrefix_loop_spec [of 0 "min (int (length a)) (int (length b))" a b 0]
  by (auto simp: commonPrefix_def)

lemma commonSuffix_spec:
  assumes "0 \<le> r" "r \<le> int (length a)" "r \<le> int (length b)"
  shows "\<exists>s. commonSuffix a (int (length a) - r) r b (int (length b) - r) r = Some s \<and> 0 \<le> s
      \<and> r + s \<le> int (length a) \<and> r + s \<le> int (length b)
      \<and> drop (length a - nat s) a = drop (length b - nat s) b"
  using commonSuffix_loop_spec [of 0 "min (int (length a) - r) (int (length b) - r)"
      "int (length a) - r" "int (length b) - r" r r a b 0] assms
  by (auto simp: commonSuffix_def)

lemma computeRanges_lines:
  assumes "0 \<le> r" "r \<le> int (length A)" "r \<le> int (length B)" "A \<noteq> []" "B \<noteq> []"
  shows "computeRanges A B r s =
     Some (if 0 < s then (mkRange (r + 1) 1 (int (length A) - s + 1) 1,
                         mkRange (r + 1) 1 (int (length B) - s + 1) 1)
           else if 0 < r then
             (mkRange r (int (length (A ! (nat r - 1))) + 1) (int (length A))
                (int (length (A ! (length A - 1))) + 1),
              mkRange r (1 + int (length (B ! (nat r - 1)))) (int (length B))
                (1 + int (length (B ! (length B - 1)))))
           else
             (mkRange 1 1 (int (length A)) (int (length (A ! (length A - 1))) + 1),
              mkRange 1 1 (int (length B)) (1 + int (length (B ! (length B - 1))))))"
  using assms
  by (auto simp: computeRanges_def getLineCount_def getLineMaxColumn_def getLineLength_def
      getLineContent_def Let_def nat_diff_distrib' Suc_le_eq)

lemma computeEdits_cases:
  assumes wfA: "wfLines model" and wfB: "wfLines (tb_lines textBuffer)"
    and eol: "validEOL (tb_EOL textBuffer)"
  shows "(model = tb_lines textBuffer \<and> computeEdits model textBuffer = Some [])
       \<or> (model \<noteq> tb_lines textBuffer
          \<and> (\<exists>oldRange t. computeEdits model textBuffer = Some [replaceMove oldRange t]
                \<and> applyEdit model (replaceMove oldRange t) = Some (tb_lines textBuffer)))"
proof -
  let ?B = "tb_lines textBuffer"
  have neA: "model \<noteq> []" and neB: "?B \<noteq> []" using wfA wfB by (simp_all add: wfLines_def)
  obtain r where r: "commonPrefix model (int (length model)) 1 ?B (int (length ?B)) 1 = Some r"
    "0 \<le> r" "r \<le> int (length model)" "r \<le> int (length ?B)"
    "take (nat r) model = take (nat r) ?B"
    "r < min (int (length model)) (int (length ?B)) \<longrightarrow> model ! nat r \<noteq> ?B ! nat r"
    using commonPrefix_spec [of model ?B] by blast
  have same: "(length model = length ?B \<and> r = int (length model)) \<longleftrightarrow> model = ?B"
  proof
    assume "length model = length ?B \<and> r = int (length model)"
    then show "model = ?B" using r(5) by simp
  next
    assume e: "model = ?B"
    then have "\<not> r < int (length model)" using r(6) by auto
    then show "length model = length ?B \<and> r = int (length model)" using r(3) e by simp
  qed
  show ?thesis
  proof (cases "model = ?B")
    case True
    then have "computeEdits model textBuffer = Some []"
      using r(1) same by (simp add: computeEdits_def getLineCount_def Let_def)
    then show ?thesis using True by simp
  next
    case False
    then have ne: "\<not> (int (length model) = int (length ?B) \<and> r = int (length model))"
      using same by simp
    obtain s where s: "commonSuffix model (int (length model) - r) r ?B (int (length ?B) - r) r = Some s"
      "0 \<le> s" "r + s \<le> int (length model)" "r + s \<le> int (length ?B)"
      "drop (length model - nat s) model = drop (length ?B - nat s) ?B"
      using commonSuffix_spec [OF r(2,3,4)] by blast
    define p where "p = nat r"
    define q where "q = nat s"
    have rp: "r = int p" and sq: "s = int q" using r(2) s(2) by (simp_all add: p_def q_def)
    have le: "p + q \<le> length model" "p + q \<le> length ?B" using s(3,4) rp sq by simp_all
    have pre: "take p model = take p ?B" using r(5) by (simp add: p_def)
    have suf: "drop (length model - q) model = drop (length ?B - q) ?B"
      using s(5) by (simp add: q_def)
    have cr: "computeRanges model ?B (int p) (int q) =
     Some (if 0 < int q then (mkRange (int p + 1) 1 (int (length model) - int q + 1) 1,
                         mkRange (int p + 1) 1 (int (length ?B) - int q + 1) 1)
           else if 0 < int p then
             (mkRange (int p) (int (length (model ! (nat (int p) - 1))) + 1) (int (length model))
                (int (length (model ! (length model - 1))) + 1),
              mkRange (int p) (1 + int (length (?B ! (nat (int p) - 1)))) (int (length ?B))
                (1 + int (length (?B ! (length ?B - 1)))))
           else
             (mkRange 1 1 (int (length model)) (int (length (model ! (length model - 1))) + 1),
              mkRange 1 1 (int (length ?B)) (1 + int (length (?B ! (length ?B - 1))))))"
      using le by (intro computeRanges_lines neA neB) simp_all
    have "\<exists>oldRange newRange t. computeRanges model ?B (int p) (int q) = Some (oldRange, newRange)
            \<and> getValueInRange textBuffer newRange = Some t
            \<and> applyEdit model (replaceMove oldRange t) = Some ?B"
    proof (cases "0 < q")
      case True
      show ?thesis
        using roundtrip_wholeLines [OF wfA wfB eol pre suf le True] cr True by simp
    next
      case q0: False
      show ?thesis
      proof (cases "0 < p")
        case True
        have lep: "p \<le> length model" "p \<le> length ?B" using le by simp_all
        show ?thesis
          using roundtrip_tail [OF wfA wfB eol pre lep True] cr q0 True by simp
      next
        case False
        then show ?thesis
          using roundtrip_all [OF wfA wfB eol] cr q0 by simp
      qed
    qed
    then have "\<exists>oldRange newRange t. computeRanges model ?B r s = Some (oldRange, newRange)
            \<and> getValueInRange textBuffer newRange = Some t
            \<and> applyEdit model (replaceMove oldRange t) = Some ?B"
      unfolding rp sq .
    then obtain oldRange newRange t where
      c: "computeRanges model ?B r s = Some (oldRange, newRange)"
         "getValueInRange textBuffer newRange = Some t"
         "applyEdit model (replaceMove oldRange t) = Some ?B"
      by blast
    have "computeEdits model textBuffer = Some [replaceMove oldRange t]"
      using r(1) s(1) ne c(1,2) by (simp add: computeEdits_def getLineCount_def Let_def)
    then show ?thesis using c(3) False by blast
  qed
qed

text \<open>
  Claim C1. For every document and every staging buffer (each with at least one line,
  no line holding a line break, the buffer's terminator \<open>LF\<close> or \<open>CR LF\<close>),
  \<^verbatim>\<open>_computeEdits\<close> returns an edit list; applying it to the lines of the document
  gives exactly the lines of the buffer; and the list is empty if and only if the two
  have the same number of lines and are pairwise equal, line for line.
\<close>

theorem computeEdits_roundtrip:
  assumes wfA: "wfLines model" and wfB: "wfLines (tb_lines textBuffer)"
    and eol: "validEOL (tb_EOL textBuffer)"
  shows "\<exists>edits. computeEdits model textBuffer = Some edits
           \<and> applyEdits model edits = Some (tb_lines textBuffer)
           \<and> (edits = [] \<longleftrightarrow>
                (length model = length (tb_lines textBuffer)
                 \<and> (\<forall>i < length model. model ! i = tb_lines textBuffer ! i)))"
proof -
  let ?B = "tb_lines textBuffer"
  have eqlist: "model = ?B \<longleftrightarrow>
      (length model = length ?B \<and> (\<forall>i < length model. model ! i = ?B ! i))"
    by (rule list_eq_iff_nth_eq)
  from computeEdits_cases [OF wfA wfB eol] show ?thesis
  proof
    assume "model = ?B \<and> computeEdits model textBuffer = Some []"
    then have e: "computeEdits model textBuffer = Some []" and m: "model = ?B" by blast+
    have "applyEdits model [] = Some ?B" using m by (simp add: applyEdits_def)
    then show ?thesis using e m eqlist by blast
  next
    assume "model \<noteq> ?B
          \<and> (\<exists>oldRange t. computeEdits model textBuffer = Some [replaceMove oldRange t]
                \<and> applyEdit model (replaceMove oldRange t) = Some ?B)"
    then obtain oldRange t where d: "model \<noteq> ?B"
      "computeEdits model textBuffer = Some [replaceMove oldRange t]"
      "applyEdit model (replaceMove oldRange t) = Some ?B" by blast
    have "applyEdits model [replaceMove oldRange t] = Some ?B"
      using d(3) by (simp add: applyEdits_def)
    moreover have "[replaceMove oldRange t] \<noteq> []" by simp
    ultimately show ?thesis using d(1,2) eqlist by blast
  qed
qed

theorem computeEdits_roundtrip_witness:
  "wfLines [''ab'', ''x'', ''cd''] \<and> wfLines (tb_lines \<lparr>tb_lines = [''ab'', ''y'', ''z'', ''cd''], tb_EOL = [CR, LF]\<rparr>)
   \<and> validEOL (tb_EOL \<lparr>tb_lines = [''ab'', ''y'', ''z'', ''cd''], tb_EOL = [CR, LF]\<rparr>)
   \<and> (\<exists>edits. computeEdits [''ab'', ''x'', ''cd'']
                   \<lparr>tb_lines = [''ab'', ''y'', ''z'', ''cd''], tb_EOL = [CR, LF]\<rparr> = Some edits
        \<and> applyEdits [''ab'', ''x'', ''cd''] edits = Some [''ab'', ''y'', ''z'', ''cd'']
        \<and> edits \<noteq> [])"
proof -
  let ?A = "[''ab'', ''x'', ''cd'']"
  let ?tb = "\<lparr>tb_lines = [''ab'', ''y'', ''z'', ''cd''], tb_EOL = [CR, LF]\<rparr>"
  have h1: "wfLines ?A" by (simp add: wfLines_def noBreak_def CR_def LF_def)
  have h2: "wfLines (tb_lines ?tb)" by (simp add: wfLines_def noBreak_def CR_def LF_def)
  have h3: "validEOL (tb_EOL ?tb)" by (simp add: validEOL_def)
  from computeEdits_roundtrip [OF h1 h2 h3] obtain edits where
    e: "computeEdits ?A ?tb = Some edits" "applyEdits ?A edits = Some (tb_lines ?tb)"
       "edits = [] \<longleftrightarrow> (length ?A = length (tb_lines ?tb)
          \<and> (\<forall>i < length ?A. ?A ! i = tb_lines ?tb ! i))"
    by blast
  from e(3) have "edits \<noteq> []" by simp
  with e(1,2) h1 h2 h3 show ?thesis by simp
qed

lemma rangeIncludesLine_iff:
  "rangeIncludesLine r k \<longleftrightarrow>
     (\<exists>c\<ge>1. \<not> posBefore (k, c) (startLineNumber r, startColumn r)
            \<and> posBefore (k, c) (endLineNumber r, endColumn r))"
proof
  assume i: "rangeIncludesLine r k"
  let ?c = "max 1 (if startLineNumber r = k then startColumn r else 1)"
  have "1 \<le> ?c" by simp
  moreover have "\<not> posBefore (k, ?c) (startLineNumber r, startColumn r)"
    using i by (auto simp: rangeIncludesLine_def posBefore_def)
  moreover have "posBefore (k, ?c) (endLineNumber r, endColumn r)"
    using i by (auto simp: rangeIncludesLine_def posBefore_def)
  ultimately show "\<exists>c\<ge>1. \<not> posBefore (k, c) (startLineNumber r, startColumn r)
            \<and> posBefore (k, c) (endLineNumber r, endColumn r)" by blast
next
  assume "\<exists>c\<ge>1. \<not> posBefore (k, c) (startLineNumber r, startColumn r)
            \<and> posBefore (k, c) (endLineNumber r, endColumn r)"
  then obtain c where "1 \<le> c" "\<not> posBefore (k, c) (startLineNumber r, startColumn r)"
    "posBefore (k, c) (endLineNumber r, endColumn r)" by blast
  then show "rangeIncludesLine r k"
    by (auto simp: rangeIncludesLine_def posBefore_def)
qed

text \<open>
  Claim C7, as amended. When the computed common suffix is not zero, the edit is
  whole-line: the old range runs from line \<open>prefix + 1\<close>, column 1, to line
  \<open>oldLineCount - suffix + 1\<close>, column 1, and the new range mirrors it in the staging
  buffer, up to line \<open>newLineCount - suffix + 1\<close>, column 1. The old range includes no
  content of a line past \<open>oldLineCount - suffix\<close>, and the new range none of a line past
  \<open>newLineCount - suffix\<close>; the trailing \<open>suffix\<close> lines of the document are the
  trailing lines of the result of the edit.
\<close>

theorem whole_line_edit:
  assumes wfA: "wfLines model" and wfB: "wfLines (tb_lines textBuffer)"
    and eol: "validEOL (tb_EOL textBuffer)"
    and pre: "commonPrefix model (getLineCount model) 1
                (tb_lines textBuffer) (getLineCount (tb_lines textBuffer)) 1 = Some nPrefix"
    and suf: "commonSuffix model (getLineCount model - nPrefix) nPrefix
                (tb_lines textBuffer) (getLineCount (tb_lines textBuffer) - nPrefix) nPrefix
              = Some nSuffix"
    and pos: "0 < nSuffix"
  shows "computeRanges model (tb_lines textBuffer) nPrefix nSuffix
           = Some (mkRange (nPrefix + 1) 1 (getLineCount model - nSuffix + 1) 1,
                   mkRange (nPrefix + 1) 1 (getLineCount (tb_lines textBuffer) - nSuffix + 1) 1)
     \<and> (\<exists>t. getValueInRange textBuffer
                (mkRange (nPrefix + 1) 1 (getLineCount (tb_lines textBuffer) - nSuffix + 1) 1)
              = Some t
            \<and> computeEdits model textBuffer
              = Some [replaceMove (mkRange (nPrefix + 1) 1 (getLineCount model - nSuffix + 1) 1) t]
            \<and> applyEdit model
                 (replaceMove (mkRange (nPrefix + 1) 1 (getLineCount model - nSuffix + 1) 1) t)
              = Some (tb_lines textBuffer))
     \<and> (\<forall>k. getLineCount model - nSuffix < k \<longrightarrow>
            \<not> rangeIncludesLine
                 (mkRange (nPrefix + 1) 1 (getLineCount model - nSuffix + 1) 1) k)
     \<and> (\<forall>k. getLineCount (tb_lines textBuffer) - nSuffix < k \<longrightarrow>
            \<not> rangeIncludesLine
                 (mkRange (nPrefix + 1) 1 (getLineCount (tb_lines textBuffer) - nSuffix + 1) 1) k)
     \<and> nSuffix \<le> getLineCount model \<and> nSuffix \<le> getLineCount (tb_lines textBuffer)
     \<and> drop (length (tb_lines textBuffer) - nat nSuffix) (tb_lines textBuffer)
         = drop (length model - nat nSuffix) model"
proof -
  let ?B = "tb_lines textBuffer"
  have neA: "model \<noteq> []" and neB: "?B \<noteq> []" using wfA wfB by (simp_all add: wfLines_def)
  have r: "0 \<le> nPrefix" "nPrefix \<le> int (length model)" "nPrefix \<le> int (length ?B)"
    "take (nat nPrefix) model = take (nat nPrefix) ?B"
    using commonPrefix_spec [of model ?B] pre by (auto simp: getLineCount_def)
  have s: "nPrefix + nSuffix \<le> int (length model)" "nPrefix + nSuffix \<le> int (length ?B)"
    "drop (length model - nat nSuffix) model = drop (length ?B - nat nSuffix) ?B"
    using commonSuffix_spec [OF r(1,2,3)] suf by (auto simp: getLineCount_def)
  define p where "p = nat nPrefix"
  define q where "q = nat nSuffix"
  have rp: "nPrefix = int p" and sq: "nSuffix = int q" using r(1) pos by (simp_all add: p_def q_def)
  have le: "p + q \<le> length model" "p + q \<le> length ?B" using s(1,2) rp sq by simp_all
  have q0: "0 < q" using pos sq by simp
  have pre': "take p model = take p ?B" using r(4) by (simp add: p_def)
  have suf': "drop (length model - q) model = drop (length ?B - q) ?B"
    using s(3) by (simp add: q_def)
  have cr: "computeRanges model ?B (int p) (int q)
           = Some (mkRange (int p + 1) 1 (int (length model) - int q + 1) 1,
                   mkRange (int p + 1) 1 (int (length ?B) - int q + 1) 1)"
    using q0 by (simp add: computeRanges_def getLineCount_def Let_def)
  obtain t where t: "getValueInRange textBuffer
        (mkRange (int p + 1) 1 (int (length ?B) - int q + 1) 1) = Some t"
      "applyEdit model (replaceMove (mkRange (int p + 1) 1 (int (length model) - int q + 1) 1) t)
         = Some ?B"
    using roundtrip_wholeLines [OF wfA wfB eol pre' suf' le q0] by blast
  have ne: "\<not> (int (length model) = int (length ?B) \<and> int p = int (length model))"
    using le q0 by simp
  have ce: "computeEdits model textBuffer
        = Some [replaceMove (mkRange (int p + 1) 1 (int (length model) - int q + 1) 1) t]"
    using pre suf cr t(1) ne unfolding rp sq
    by (simp add: computeEdits_def getLineCount_def Let_def)
  have old: "\<not> rangeIncludesLine (mkRange (int p + 1) 1 (int (length model) - int q + 1) 1) k"
    if "int (length model) - int q < k" for k
    using that by (simp add: rangeIncludesLine_def mkRange_def)
  have new: "\<not> rangeIncludesLine (mkRange (int p + 1) 1 (int (length ?B) - int q + 1) 1) k"
    if "int (length ?B) - int q < k" for k
    using that by (simp add: rangeIncludesLine_def mkRange_def)
  have bound: "int q \<le> int (length model)" "int q \<le> int (length ?B)" using le by simp_all
  have suf'': "drop (length ?B - nat (int q)) ?B = drop (length model - nat (int q)) model"
    using suf' by simp
  show ?thesis
    unfolding rp sq getLineCount_def
    using cr t ce old new bound suf'' by blast
qed

theorem whole_line_edit_witness:
  "wfLines [''a'', ''x'', ''z''] \<and> (0::int) < 1
   \<and> computeRanges [''a'', ''x'', ''z''] [''a'', ''y'', ''w'', ''z''] 1 1
       = Some (mkRange 2 1 3 1, mkRange 2 1 4 1)
   \<and> computeEdits [''a'', ''x'', ''z''] \<lparr>tb_lines = [''a'', ''y'', ''w'', ''z''], tb_EOL = [LF]\<rparr>
       = Some [replaceMove (mkRange 2 1 3 1) [CHR ''y'', LF, CHR ''w'', LF]]
   \<and> \<not> rangeIncludesLine (mkRange 2 1 3 1) 3
   \<and> \<not> rangeIncludesLine (mkRange 2 1 4 1) 4"
proof -
  let ?A = "[''a'', ''x'', ''z'']"
  let ?tb = "\<lparr>tb_lines = [''a'', ''y'', ''w'', ''z''], tb_EOL = [LF]\<rparr>"
  have h1: "wfLines ?A" by code_simp
  have h2: "wfLines (tb_lines ?tb)" by code_simp
  have h3: "validEOL (tb_EOL ?tb)" by code_simp
  have h4: "commonPrefix ?A (getLineCount ?A) 1 (tb_lines ?tb) (getLineCount (tb_lines ?tb)) 1
            = Some 1" by code_simp
  have h5: "commonSuffix ?A (getLineCount ?A - 1) 1 (tb_lines ?tb)
              (getLineCount (tb_lines ?tb) - 1) 1 = Some 1" by code_simp
  have h6: "(0::int) < 1" by simp
  have v: "getValueInRange ?tb (mkRange 2 1 4 1) = Some [CHR ''y'', LF, CHR ''w'', LF]"
    by code_simp
  note T = whole_line_edit [OF h1 h2 h3 h4 h5 h6]
  have g: "getLineCount ?A = 3" "getLineCount [''a'', ''y'', ''w'', ''z''] = 4"
    by (simp_all add: getLineCount_def)
  from T have a: "computeRanges ?A (tb_lines ?tb) 1 1
       = Some (mkRange (1 + 1) 1 (getLineCount ?A - 1 + 1) 1,
               mkRange (1 + 1) 1 (getLineCount (tb_lines ?tb) - 1 + 1) 1)" by blast
  from T obtain t where t: "getValueInRange ?tb
         (mkRange (1 + 1) 1 (getLineCount (tb_lines ?tb) - 1 + 1) 1) = Some t"
     "computeEdits ?A ?tb
        = Some [replaceMove (mkRange (1 + 1) 1 (getLineCount ?A - 1 + 1) 1) t]" by blast
  from T have b: "\<forall>k. getLineCount ?A - 1 < k \<longrightarrow>
      \<not> rangeIncludesLine (mkRange (1 + 1) 1 (getLineCount ?A - 1 + 1) 1) k" by blast
  from T have c: "\<forall>k. getLineCount (tb_lines ?tb) - 1 < k \<longrightarrow>
      \<not> rangeIncludesLine (mkRange (1 + 1) 1 (getLineCount (tb_lines ?tb) - 1 + 1) 1) k"
    by blast
  have t': "t = [CHR ''y'', LF, CHR ''w'', LF]" using t(1) v by (simp add: g)
  have b': "\<not> rangeIncludesLine (mkRange 2 1 3 1) 3" using b [rule_format, of 3] by (simp add: g)
  have c': "\<not> rangeIncludesLine (mkRange 2 1 4 1) 4" using c [rule_format, of 4] by (simp add: g)
  from a t(2) t' b' c' h1 show ?thesis by (simp add: g)
qed

text \<open>
  The claim C7 as it was stated bounds the new range, too, by the line count of the
  document. For a document of two lines and a buffer of four that share their last
  line, the new range includes content of line 3 of the buffer, which is past
  \<open>oldLineCount - suffix = 1\<close>.
\<close>

theorem new_range_past_old_line_count:
  "commonPrefix [''a'', ''z''] (getLineCount [''a'', ''z'']) 1
      [''p'', ''q'', ''r'', ''z''] (getLineCount [''p'', ''q'', ''r'', ''z'']) 1 = Some 0
   \<and> commonSuffix [''a'', ''z''] (getLineCount [''a'', ''z''] - 0) 0
      [''p'', ''q'', ''r'', ''z''] (getLineCount [''p'', ''q'', ''r'', ''z''] - 0) 0 = Some 1
   \<and> computeRanges [''a'', ''z''] [''p'', ''q'', ''r'', ''z''] 0 1
       = Some (mkRange 1 1 2 1, mkRange 1 1 4 1)
   \<and> getLineCount [''a'', ''z''] - 1 < 3
   \<and> rangeIncludesLine (mkRange 1 1 4 1) 3"
  by code_simp

section \<open>Properties of the bulk update\<close>









text \<open>
  With a staging buffer that is not content-equal, \<^verbatim>\<open>updateModel\<close> makes four calls on
  the document, in this order: a stack element, the end-of-line change to the buffer's
  terminator, one batch of edits holding the diff engine's result (no edit or one edit),
  and a stack element. Afterwards the document holds the lines and the terminator of the
  buffer.
\<close>

lemma updateModel_calls:
  assumes wfA: "wfLines (m_lines model)" and wfB: "wfLines (tb_lines textBuffer)"
    and eol: "validEOL (tb_EOL textBuffer)"
    and ne: "\<not> equalsTextBuffer model textBuffer"
  shows "\<exists>edits. computeEdits (m_lines model) textBuffer = Some edits \<and> length edits \<le> 1
          \<and> updateModel model textBuffer
             = Some \<lparr>m_lines = tb_lines textBuffer, m_EOL = tb_EOL textBuffer,
                     m_calls = m_calls model @
                       [PushStackElement,
                        PushEOL (if tb_EOL textBuffer = [CR, LF] then EOL_CRLF else EOL_LF),
                        PushEditOperations edits, PushStackElement]\<rparr>"
proof -
  obtain edits where e: "computeEdits (m_lines model) textBuffer = Some edits"
    "applyEdits (m_lines model) edits = Some (tb_lines textBuffer)"
    using computeEdits_cases [OF wfA wfB eol] by (auto simp: applyEdits_def)
  have len: "length edits \<le> 1"
    using e(2) by (cases edits rule: list.exhaust; simp add: applyEdits_def split: list.splits)
  have eq: "(case (if tb_EOL textBuffer = [CR, LF] then EOL_CRLF else EOL_LF) of
               EOL_LF \<Rightarrow> [LF] | EOL_CRLF \<Rightarrow> [CR, LF]) = tb_EOL textBuffer"
    using eol by (auto simp: validEOL_def)
  show ?thesis using e len ne eq
    by (simp add: updateModel_def Let_def pushStackElement_def pushEOL_def pushEditOperations_def)
qed

section \<open>Properties of the decoding\<close>

lemma take4:
  assumes "off + 4 \<le> length ys"
  shows "take (off + 4) ys = take off ys @ [ys ! off, ys ! (off + 1), ys ! (off + 2), ys ! (off + 3)]"
proof -
  have e: "off + 4 = Suc (Suc (Suc (Suc off)))" "off + 3 = Suc (Suc (Suc off))"
    "off + 2 = Suc (Suc off)" "off + 1 = Suc off" by simp_all
  have "Suc (Suc (Suc (Suc off))) \<le> length ys" using assms by simp
  then show ?thesis unfolding e by (simp add: take_Suc_conv_app_nth)
qed

lemma take_update4:
  assumes "off + 4 \<le> length xs"
  shows "take (off + 4) (xs[off := a, off + 1 := b, off + 2 := c, off + 3 := d])
         = take off xs @ [a, b, c, d]"
proof -
  let ?ys = "xs[off := a, off + 1 := b, off + 2 := c, off + 3 := d]"
  have len: "off + 4 \<le> length ?ys" using assms by simp
  have n: "?ys ! off = a" "?ys ! (off + 1) = b" "?ys ! (off + 2) = c" "?ys ! (off + 3) = d"
    using assms by (simp_all add: nth_list_update)
  have t0: "take off ?ys = take off xs" by simp
  show ?thesis using take4 [OF len] n t0 by simp
qed

lemma decode_loop_spec:
  assumes "i \<le> tokenCount" "length destTokens = 4 * tokenCount" "destOffset \<le> 4 * i"
    and "take destOffset destTokens = concat (map (emitTuple th legend src) [0 ..< i])"
  shows "case decode_loop th legend src tokenCount i destTokens destOffset of
           (d, off) \<Rightarrow> length d = 4 * tokenCount \<and> off \<le> 4 * tokenCount
              \<and> take off d = concat (map (emitTuple th legend src) [0 ..< tokenCount])"
  using assms
proof (induction th legend src tokenCount i destTokens destOffset rule: decode_loop.induct)
  case (1 th legend src tokenCount i destTokens destOffset)
  show ?case
  proof (cases "i < tokenCount")
    case False
    with 1(3-) show ?thesis
      by (simp add: decode_loop.simps [of th legend src tokenCount i destTokens destOffset])
  next
    case lt: True
    show ?thesis
    proof (cases "tokenStyle th legend src i")
      case None
      have e: "emitTuple th legend src i = []" using None by (simp add: emitTuple_def)
      have "case decode_loop th legend src tokenCount (i + 1) destTokens destOffset of
           (d, off) \<Rightarrow> length d = 4 * tokenCount \<and> off \<le> 4 * tokenCount
              \<and> take off d = concat (map (emitTuple th legend src) [0 ..< tokenCount])"
        using 1(1) [OF lt refl refl refl refl None] 1(3-) lt e by simp
      then show ?thesis using lt None
        by (subst decode_loop.simps) (simp add: Let_def)
    next
      case (Some metadata)
      let ?d' = "destTokens[destOffset := src ! (5 * i), destOffset + 1 := src ! (5 * i + 1),
                              destOffset + 2 := src ! (5 * i + 2),
                              destOffset + 3 := word_of_int metadata]"
      have e: "emitTuple th legend src i
               = [src ! (5 * i), src ! (5 * i + 1), src ! (5 * i + 2), word_of_int metadata]"
        using Some by (simp add: emitTuple_def)
      have fit: "destOffset + 4 \<le> length destTokens" using 1(4,5) lt by simp
      have tk: "take (destOffset + 4) ?d' = concat (map (emitTuple th legend src) [0 ..< i + 1])"
        using take_update4 [OF fit] 1(6) e by simp
      have "case decode_loop th legend src tokenCount (i + 1) ?d' (destOffset + 4) of
           (d, off) \<Rightarrow> length d = 4 * tokenCount \<and> off \<le> 4 * tokenCount
              \<and> take off d = concat (map (emitTuple th legend src) [0 ..< tokenCount])"
        using 1(2) [OF lt refl refl refl refl Some] 1(3-5) lt tk by simp
      then show ?thesis using lt Some
        by (subst decode_loop.simps) (simp add: Let_def)
    qed
  qed
qed

lemma concat_emit_kept:
  "concat (map (emitTuple th legend src) is)
   = concat (map (emitTuple th legend src) (filter (\<lambda>i. tokenStyle th legend src i \<noteq> None) is))"
  by (induction "is") (auto simp: emitTuple_def)

lemma length_concat_emit:
  "length (concat (map (emitTuple th legend src) is))
   = 4 * length (filter (\<lambda>i. tokenStyle th legend src i \<noteq> None) is)"
  by (induction "is") (auto simp: emitTuple_def)

lemma decodeArea_tokens:
  "mt_tokens (decodeArea th legend area)
   = concat (map (emitTuple th legend (area_data area)) [0 ..< length (area_data area) div 5])"
proof -
  let ?src = "area_data area" and ?n = "length (area_data area) div 5"
  obtain d off where r: "decode_loop th legend ?src ?n 0 (replicate (4 * ?n) 0) 0 = (d, off)"
    by (cases "decode_loop th legend ?src ?n 0 (replicate (4 * ?n) 0) 0")
  have "length d = 4 * ?n \<and> off \<le> 4 * ?n
          \<and> take off d = concat (map (emitTuple th legend ?src) [0 ..< ?n])"
    using decode_loop_spec [of 0 ?n "replicate (4 * ?n) 0" 0 th legend ?src] r by simp
  then show ?thesis using r by (auto simp: decodeArea_def Let_def)
qed

lemma bit_shifted:
  fixes w :: "32 word"
  assumes "k < 32" "i \<le> k"
  shows "bit (signed_drop_bit i w) (k - i) = bit w k"
proof -
  have "\<not> (32 - i \<le> k - i \<and> k - i < 32)" using assms by arith
  then show ?thesis using assms by (simp add: bit_signed_drop_bit_iff)
qed

lemma and_one_bit0: "(v AND 1 \<noteq> 0) = bit v 0" for v :: "32 word"
  by (simp add: and_one_eq bit_0 mod_2_eq_odd)

lemma bit_shifted_sign:
  fixes w :: "32 word"
  shows "bit (signed_drop_bit i w) 0 = bit w (min i 31)"
  by (auto simp add: bit_signed_drop_bit_iff min_def)

lemma zero_shift_no_bits:
  fixes w :: "32 word"
  assumes "signed_drop_bit i w = 0" "i \<le> k"
  shows "\<not> bit w (min k 31)"
proof (cases "k < 32")
  case True
  then have "bit w k = bit (signed_drop_bit i w) (k - i)" using assms(2) by (simp add: bit_shifted)
  then show ?thesis using assms(1) True by (simp add: min_def)
next
  case False
  show ?thesis
  proof (cases "i \<le> 31")
    case True
    have "bit w 31 = bit (signed_drop_bit i w) (31 - i)" using True bit_shifted [of 31 i w] by simp
    then show ?thesis using assms(1) False by (simp add: min_def)
  next
    case i: False
    have "bit (signed_drop_bit i w) 0 = bit w 31" using i by (simp add: bit_shifted_sign min_def)
    then show ?thesis using assms(1) False by (simp add: min_def)
  qed
qed

lemma modifiers_loop_from_any:
  assumes "i \<le> length ms"
  shows "modifiers_loop ms (signed_drop_bit i w) i acc
         = acc @ map ((!) ms) (filter (\<lambda>k. bit w (min k 31)) [i ..< length ms])"
  using assms
proof (induction "length ms - i" arbitrary: i acc)
  case 0
  then have "i = length ms" by simp
  then show ?case by (simp add: modifiers_loop.simps [of ms _ i acc])
next
  case (Suc n)
  then have lt: "i < length ms" by simp
  let ?v = "signed_drop_bit i w"
  show ?case
  proof (cases "?v = 0")
    case True
    have "\<not> bit w (min k 31)" if "k \<in> set [i ..< length ms]" for k
      using zero_shift_no_bits [OF True, of k] that by simp
    then have "filter (\<lambda>k. bit w (min k 31)) [i ..< length ms] = []"
      by (simp add: filter_empty_conv)
    then show ?thesis using True by (simp add: modifiers_loop.simps [of ms _ i acc])
  next
    case False
    have b0: "(?v AND 1 \<noteq> 0) = bit w (min i 31)"
      by (simp add: and_one_bit0 bit_shifted_sign)
    have sh: "signed_drop_bit 1 ?v = signed_drop_bit (i + 1) w"
      by simp
    have IH: "modifiers_loop ms (signed_drop_bit (i + 1) w) (i + 1) acc'
              = acc' @ map ((!) ms) (filter (\<lambda>k. bit w (min k 31)) [i + 1 ..< length ms])" for acc'
      using Suc.hyps(1) [of "i + 1" acc'] Suc.hyps(2) Suc.prems lt by simp
    have up: "[i ..< length ms] = i # [i + 1 ..< length ms]" using lt by (simp add: upt_conv_Cons)
    show ?thesis
      using False lt b0 sh IH up
      by (subst modifiers_loop.simps) simp
  qed
qed

text \<open>
  The modifier loop yields, in the order of the legend, the names at the indices whose
  bit is set in the bit set, bit 31 standing for every index from 31 on.
\<close>

lemma modifiers_loop_names:
  "modifiers_loop ms w 0 [] = map ((!) ms) (filter (\<lambda>k. bit w (min k 31)) [0 ..< length ms])"
  using modifiers_loop_from_any [of 0 ms w "[]"] by simp

text \<open>
  For a legend of at most 32 modifiers these are the names whose bit is set. (Past 32
  modifiers the sign-propagating shift repeats bit 31, as the example after it shows.)
\<close>

lemma modifiers_loop_bits:
  assumes "length ms \<le> 32"
  shows "modifiers_loop ms w 0 [] = map ((!) ms) (filter (bit w) [0 ..< length ms])"
proof -
  have "bit w (min k 31) = bit w k" if "k \<in> set [0 ..< length ms]" for k
  proof -
    have "k \<le> 31" using that assms by simp
    then show ?thesis by (simp add: min_def)
  qed
  then have "filter (\<lambda>k. bit w (min k 31)) [0 ..< length ms] = filter (bit w) [0 ..< length ms]"
    by (rule filter_cong [OF refl])
  then show ?thesis by (simp only: modifiers_loop_names)
qed

lemma modifiers_loop_sign_bit:
  "modifiers_loop (replicate 33 ''m'') 0x80000000 0 [] = [''m'', ''m'']"
  by code_simp

text \<open>
  Claim C6. For every area whose data holds whole 5-field tuples, the emitted array is
  the concatenation, in source order, of the 4-field tuples of exactly those source
  tuples whose style resolves: a tuple whose style does not resolve contributes nothing
  (no sentinel, no zero fill), and the length of the array is 4 times the number of
  kept tuples.
\<close>

theorem decodeArea_dense:
  assumes "5 dvd length (area_data area)"
  shows "mt_tokens (decodeArea th legend area)
           = concat (map (emitTuple th legend (area_data area))
                         (keptTuples th legend (area_data area)))
         \<and> length (mt_tokens (decodeArea th legend area))
           = 4 * length (keptTuples th legend (area_data area))
         \<and> mt_line (decodeArea th legend area) = area_line area"
proof -
  have l: "mt_line (decodeArea th legend area) = area_line area"
    by (simp add: decodeArea_def Let_def split: prod.splits)
  show ?thesis
    using decodeArea_tokens [of th legend area] l
      concat_emit_kept [of th legend "area_data area" "[0 ..< length (area_data area) div 5]"]
      length_concat_emit [of th legend "area_data area" "[0 ..< length (area_data area) div 5]"]
    by (simp add: keptTuples_def)
qed

theorem decodeArea_dense_witness:
  "5 dvd length (area_data \<lparr>area_line = 3, area_data = [0, 0, 5, 0, 1, 1, 2, 3, 0, 0, 1, 5, 7, 0, 1]\<rparr>)
   \<and> mt_tokens (decodeArea
        (\<lambda>ty ms. if ty = Some ''comment'' \<and> ms = [''readonly''] then Some 77 else None)
        \<lparr>tokenTypes = [''comment''], tokenModifiers = [''readonly'']\<rparr>
        \<lparr>area_line = 3, area_data = [0, 0, 5, 0, 1, 1, 2, 3, 0, 0, 1, 5, 7, 0, 1]\<rparr>)
     = [0, 0, 5, 77, 1, 5, 7, 77]"
proof -
  let ?th = "\<lambda>ty ms. if ty = Some ''comment'' \<and> ms = [''readonly''] then Some (77::int) else None"
  let ?L = "\<lparr>tokenTypes = [''comment''], tokenModifiers = [''readonly'']\<rparr>"
  let ?a = "\<lparr>area_line = 3, area_data = [0, 0, 5, 0, 1, 1, 2, 3, 0, 0, 1, 5, 7, 0, 1]\<rparr>"
  have h: "5 dvd length (area_data ?a)" by code_simp
  have k: "concat (map (emitTuple ?th ?L (area_data ?a)) (keptTuples ?th ?L (area_data ?a)))
           = [0, 0, 5, 77, 1, 5, 7, 77]" by code_simp
  from decodeArea_dense [OF h, of ?th ?L] k h show ?thesis by simp
qed

text \<open>
  Claim C5. With the legend of one type \<open>comment\<close> and one modifier \<open>readonly\<close>, the
  raw tuple \<open>(0, 0, 5, 0, 1)\<close> resolves to the type \<open>comment\<close> and the modifiers
  \<open>[readonly]\<close>; the decoded output is empty when the theme resolver answers nothing
  for that pair, and the one tuple with the resolved metadata otherwise. For every
  legend and every bit set, the modifier loop expands the bit set from bit 0 upward:
  it yields, in legend order, the names at the indices whose bit is set (for a legend
  of at most 32 modifiers; past that, bit 31 stands for every further index), and it
  stops as soon as the remaining bit set is zero or the index leaves the legend's
  modifier list.
\<close>

theorem decode_example:
  "nth_opt (tokenTypes \<lparr>tokenTypes = [''comment''], tokenModifiers = [''readonly'']\<rparr>)
      (unat ([0, 0, 5, 0, 1 :: 32 word] ! 3)) = Some ''comment''
   \<and> modifiers_loop (tokenModifiers \<lparr>tokenTypes = [''comment''], tokenModifiers = [''readonly'']\<rparr>)
        ([0, 0, 5, 0, 1] ! 4) 0 [] = [''readonly'']
   \<and> tokenStyle th \<lparr>tokenTypes = [''comment''], tokenModifiers = [''readonly'']\<rparr> [0, 0, 5, 0, 1] 0
       = th (Some ''comment'') [''readonly'']
   \<and> mt_tokens (decodeArea th \<lparr>tokenTypes = [''comment''], tokenModifiers = [''readonly'']\<rparr>
        \<lparr>area_line = l, area_data = [0, 0, 5, 0, 1]\<rparr>)
       = (case th (Some ''comment'') [''readonly''] of
            None \<Rightarrow> [] | Some metadata \<Rightarrow> [0, 0, 5, word_of_int metadata])
   \<and> modifiers_loop legendModifiers 0 modifierIndex acc = acc
   \<and> (length legendModifiers \<le> modifierIndex \<longrightarrow>
        modifiers_loop legendModifiers tokenModifierSet modifierIndex acc = acc)
   \<and> modifiers_loop legendModifiers tokenModifierSet 0 []
       = map ((!) legendModifiers)
           (filter (\<lambda>k. bit tokenModifierSet (min k 31)) [0 ..< length legendModifiers])
   \<and> (length legendModifiers \<le> 32 \<longrightarrow>
        modifiers_loop legendModifiers tokenModifierSet 0 []
        = map ((!) legendModifiers)
            (filter (bit tokenModifierSet) [0 ..< length legendModifiers]))"
proof -
  have g: "modifiers_loop legendModifiers tokenModifierSet 0 []
       = map ((!) legendModifiers)
           (filter (\<lambda>k. bit tokenModifierSet (min k 31)) [0 ..< length legendModifiers])"
    "length legendModifiers \<le> 32 \<longrightarrow>
        modifiers_loop legendModifiers tokenModifierSet 0 []
        = map ((!) legendModifiers)
            (filter (bit tokenModifierSet) [0 ..< length legendModifiers])"
    using modifiers_loop_names modifiers_loop_bits by blast+
  have z: "modifiers_loop legendModifiers 0 modifierIndex acc = acc"
    "length legendModifiers \<le> modifierIndex \<longrightarrow>
        modifiers_loop legendModifiers tokenModifierSet modifierIndex acc = acc"
    by (simp_all add: modifiers_loop.simps [of legendModifiers _ modifierIndex acc])
  let ?L = "\<lparr>tokenTypes = [''comment''], tokenModifiers = [''readonly'']\<rparr>"
  have m: "modifiers_loop [''readonly''] (1 :: 32 word) 0 [] = [''readonly'']"
    by (simp add: modifiers_loop.simps [of _ _ 0] modifiers_loop.simps [of _ _ "Suc 0"])
  have ty: "nth_opt [''comment''] (unat (0 :: 32 word)) = Some ''comment''"
    by (simp add: nth_opt_def)
  have st: "tokenStyle th ?L [0, 0, 5, 0, 1] 0 = th (Some ''comment'') [''readonly'']"
    using m ty by (simp add: tokenStyle_def Let_def)
  have "mt_tokens (decodeArea th ?L \<lparr>area_line = l, area_data = [0, 0, 5, 0, 1]\<rparr>)
        = emitTuple th ?L [0, 0, 5, 0, 1] 0"
    by (simp add: decodeArea_tokens)
  then have d: "mt_tokens (decodeArea th ?L \<lparr>area_line = l, area_data = [0, 0, 5, 0, 1]\<rparr>)
       = (case th (Some ''comment'') [''readonly''] of
            None \<Rightarrow> [] | Some metadata \<Rightarrow> [0, 0, 5, word_of_int metadata])"
    using st by (simp add: emitTuple_def split: option.splits)
  have ty': "nth_opt (tokenTypes ?L) (unat ([0, 0, 5, 0, 1 :: 32 word] ! 3)) = Some ''comment''"
    using ty by simp
  have m': "modifiers_loop (tokenModifiers ?L) ([0, 0, 5, 0, 1] ! 4) 0 [] = [''readonly'']"
    using m by simp
  show ?thesis by (intro conjI) (rule ty' m' st d z g)+
qed

theorem decode_example_witness:
  "mt_tokens (decodeArea (\<lambda>ty ms. None)
        \<lparr>tokenTypes = [''comment''], tokenModifiers = [''readonly'']\<rparr>
        \<lparr>area_line = 1, area_data = [0, 0, 5, 0, 1]\<rparr>) = []
   \<and> length [''a'', ''b'', ''c''] \<le> 32
   \<and> modifiers_loop [''a'', ''b'', ''c''] 5 0 [] = [''a'', ''c'']"
proof -
  note T = decode_example [where th = "\<lambda>ty ms. None" and l = 1
      and legendModifiers = "[''a'', ''b'', ''c'']" and tokenModifierSet = 5
      and modifierIndex = 0 and acc = "[]"]
  have a: "mt_tokens (decodeArea (\<lambda>ty ms. None)
        \<lparr>tokenTypes = [''comment''], tokenModifiers = [''readonly'']\<rparr>
        \<lparr>area_line = 1, area_data = [0, 0, 5, 0, 1]\<rparr>) = []"
    using T [THEN conjunct2, THEN conjunct2, THEN conjunct2, THEN conjunct1] by simp
  have h: "length [''a'', ''b'', ''c''] \<le> 32" by simp
  have e: "map ((!) [''a'', ''b'', ''c''])
             (filter (bit (5 :: 32 word)) [0 ..< length [''a'', ''b'', ''c'']])
           = [''a'', ''c'']" by code_simp
  have b: "modifiers_loop [''a'', ''b'', ''c''] 5 0 [] = [''a'', ''c'']"
    using T [THEN conjunct2, THEN conjunct2, THEN conjunct2, THEN conjunct2, THEN conjunct2,
             THEN conjunct2, THEN conjunct2, THEN mp, OF h] e
    by (rule trans)
  show ?thesis by (intro conjI) (rule a h b)+
qed

section \<open>Properties of the scheduler\<close>

lemma option_list_simps [simp]: "option_list None = []" "option_list (Some x) = [x]"
  by (simp_all add: option_list_def)

lemma inv_new: "schedulerInvariant newModelSemanticColoring"
  by (simp add: schedulerInvariant_def newModelSemanticColoring_def)

lemma setSemanticTokens_frame:
  "isDisposed (setSemanticTokens ap th tokens legend pending s) = isDisposed s"
  "registered (setSemanticTokens ap th tokens legend pending s) = registered s"
  "requests (setSemanticTokens ap th tokens legend pending s) = requests s"
  "providerCalls (setSemanticTokens ap th tokens legend pending s) = providerCalls s"
  "currentRequestCancellationTokenSource (setSemanticTokens ap th tokens legend pending s)
     = currentRequestCancellationTokenSource s"
  "isDisposed s \<Longrightarrow> fetchScheduled (setSemanticTokens ap th tokens legend pending s) = fetchScheduled s"
  by (simp_all add: setSemanticTokens_def Let_def schedule_def split: option.splits)

lemma inv_setSemanticTokens: "schedulerInvariant s \<Longrightarrow> schedulerInvariant (setSemanticTokens ap th tokens legend pending s)"
  by (simp add: schedulerInvariant_def setSemanticTokens_frame)

lemma find_single:
  assumes "length xs \<le> 1" "find P xs = Some r"
  shows "xs = [r] \<and> P r \<and> filter (\<lambda>x. \<not> P x) xs = []"
proof -
  from assms(2) have "xs \<noteq> []" by auto
  with assms(1) obtain x where x: "xs = [x]" by (cases xs) auto
  with assms(2) show ?thesis by (auto split: if_splits)
qed

lemma inv_settle: assumes "schedulerInvariant s" shows "schedulerInvariant (settle ap th token res err s)"
proof (cases "find (\<lambda>r. r_token r = token) (requests s)")
  case None
  then show ?thesis using assms by (simp add: settle_def)
next
  case (Some r)
  have len: "length (requests s) \<le> 1" using assms by (simp add: schedulerInvariant_def)
  have f: "filter (\<lambda>r. r_token r \<noteq> token) (requests s) = []"
    using find_single [OF len Some] by simp
  let ?s1 = "s\<lparr>unexpectedErrors := unexpectedErrors s @ option_list err,
               currentRequestCancellationTokenSource := None,
               requests := filter (\<lambda>r. r_token r \<noteq> token) (requests s)\<rparr>"
  have "schedulerInvariant ?s1" using assms f by (simp add: schedulerInvariant_def)
  then show ?thesis using Some by (simp add: settle_def inv_setSemanticTokens)
qed

lemma inv_step: assumes "schedulerInvariant s" shows "schedulerInvariant (step ap th ev s)"
proof (cases ev)
  case (ContentChanged e)
  then show ?thesis using assms
    by (auto simp: schedulerInvariant_def trigger_def schedule_def pushPending_def comp_def)
next
  case ProviderRegistryChanged
  then show ?thesis using assms by (auto simp: schedulerInvariant_def trigger_def schedule_def)
next
  case ThemeChanged
  then show ?thesis using assms by (auto simp: schedulerInvariant_def trigger_def schedule_def)
next
  case (DebounceElapsed provider)
  then show ?thesis using assms
    by (auto simp: schedulerInvariant_def fetchSemanticTokensNow_def split: option.splits)
next
  case (ProviderResolved token res)
  then show ?thesis using assms by (simp add: inv_settle)
next
  case (ProviderRejected token err)
  then show ?thesis using assms by (simp add: inv_settle)
next
  case Disposed
  then show ?thesis using assms by (simp add: schedulerInvariant_def dispose_def)
qed

lemma inv_run: "schedulerInvariant s \<Longrightarrow> schedulerInvariant (run ap th evs s)"
  by (induction evs arbitrary: s) (simp_all add: inv_step)

lemma applySingleChanges_append:
  "applySingleChanges ap (cs @ ds) a = applySingleChanges ap ds (applySingleChanges ap cs a)"
  by (simp add: applySingleChanges_def)

lemma applyPendingChanges_per_area:
  "applyPendingChanges ap pendingChanges result
   = map (applySingleChanges ap (concat (map changes pendingChanges))) result"
proof (induction pendingChanges arbitrary: result)
  case Nil
  then show ?case by (simp add: applyPendingChanges_def applySingleChanges_def)
next
  case (Cons c cs)
  have "applyPendingChanges ap (c # cs) result
        = applyPendingChanges ap cs (map (applySingleChanges ap (changes c)) result)"
    by (simp add: applyPendingChanges_def)
  then show ?case using Cons.IH by (simp add: applySingleChanges_append comp_def)
qed

text \<open>
  Claim C3. When a response with areas is processed by a scheduler that is not disposed,
  and content changes were accumulated during the fetch, every decoded area has every
  accumulated single change applied, in the order the changes were observed (event by
  event, and within an event in the order of its changes); the adjusted areas are
  handed to the document, the response is stored, and the fetch is scheduled again.
  With the edit semantics of the specification, the run \<open>[(0, 0, 3, 77)]\<close> on line 1
  becomes \<open>[(0, 1, 4, 77)]\<close> under the insertion of \<open>X\<close> at column 1.
\<close>

theorem pending_changes_applied:
  assumes "\<not> isDisposed s" and "pendingChanges \<noteq> []"
  shows "modelSemanticTokens (setSemanticTokens ap th (Some response) legend pendingChanges s)
           = modelSemanticTokens s @
             [Some (map (\<lambda>area. foldl (\<lambda>a c. ap (c_range c) (c_text c) a)
                                   (decodeArea th legend area)
                                   (concat (map changes pendingChanges)))
                        (areas response))]
         \<and> fetchScheduled (setSemanticTokens ap th (Some response) legend pendingChanges s)
         \<and> currentResponse (setSemanticTokens ap th (Some response) legend pendingChanges s)
             = Some response
         \<and> MultilineTokens2_applyEdit (mkRange 1 1 1 1) ''X''
               \<lparr>mt_line = 1, mt_tokens = [0, 0, 3, 77]\<rparr>
             = \<lparr>mt_line = 1, mt_tokens = [0, 1, 4, 77]\<rparr>"
proof -
  have ex: "MultilineTokens2_applyEdit (mkRange 1 1 1 1) ''X''
               \<lparr>mt_line = 1, mt_tokens = [0, 0, 3, 77]\<rparr>
             = \<lparr>mt_line = 1, mt_tokens = [0, 1, 4, 77]\<rparr>"
    by code_simp
  show ?thesis using assms ex
    by (simp add: setSemanticTokens_def Let_def schedule_def applyPendingChanges_per_area
        applySingleChanges_def comp_def)
qed

theorem pending_changes_applied_witness:
  "\<not> isDisposed newModelSemanticColoring
   \<and> [\<lparr>changes = [\<lparr>c_range = mkRange 1 1 1 1, c_text = ''X''\<rparr>]\<rparr>] \<noteq> []
   \<and> modelSemanticTokens (setSemanticTokens MultilineTokens2_applyEdit (\<lambda>ty ms. Some 77)
        (Some \<lparr>areas = [\<lparr>area_line = 1, area_data = [0, 0, 3, 0, 0]\<rparr>]\<rparr>)
        \<lparr>tokenTypes = [''comment''], tokenModifiers = [''readonly'']\<rparr>
        [\<lparr>changes = [\<lparr>c_range = mkRange 1 1 1 1, c_text = ''X''\<rparr>]\<rparr>]
        newModelSemanticColoring)
     = [Some [\<lparr>mt_line = 1, mt_tokens = [0, 1, 4, 77]\<rparr>]]
   \<and> fetchScheduled (setSemanticTokens MultilineTokens2_applyEdit (\<lambda>ty ms. Some 77)
        (Some \<lparr>areas = [\<lparr>area_line = 1, area_data = [0, 0, 3, 0, 0]\<rparr>]\<rparr>)
        \<lparr>tokenTypes = [''comment''], tokenModifiers = [''readonly'']\<rparr>
        [\<lparr>changes = [\<lparr>c_range = mkRange 1 1 1 1, c_text = ''X''\<rparr>]\<rparr>]
        newModelSemanticColoring)"
proof -
  let ?pc = "[\<lparr>changes = [\<lparr>c_range = mkRange 1 1 1 1, c_text = ''X''\<rparr>]\<rparr>]"
  let ?L = "\<lparr>tokenTypes = [''comment''], tokenModifiers = [''readonly'']\<rparr>"
  let ?th = "\<lambda>ty ms. Some (77::int)"
  have h1: "\<not> isDisposed newModelSemanticColoring" by (simp add: newModelSemanticColoring_def)
  have h2: "?pc \<noteq> []" by simp
  have d: "decodeArea ?th ?L \<lparr>area_line = 1, area_data = [0, 0, 3, 0, 0]\<rparr>
           = \<lparr>mt_line = 1, mt_tokens = [0, 0, 3, 77]\<rparr>" by code_simp
  have m: "modelSemanticTokens newModelSemanticColoring = []"
    by (simp add: newModelSemanticColoring_def)
  from pending_changes_applied [OF h1 h2, of MultilineTokens2_applyEdit ?th
      "\<lparr>areas = [\<lparr>area_line = 1, area_data = [0, 0, 3, 0, 0]\<rparr>]\<rparr>" ?L] d m h1
  show ?thesis by simp
qed

lemma isDisposed_step: "isDisposed s \<Longrightarrow> isDisposed (step ap th ev s)"
  by (cases ev)
     (auto simp: trigger_def schedule_def fetchSemanticTokensNow_def settle_def dispose_def
        setSemanticTokens_frame split: option.splits)

lemma tokens_step_disposed:
  "isDisposed s \<Longrightarrow> modelSemanticTokens (step ap th ev s) = modelSemanticTokens s"
  by (cases ev)
     (auto simp: trigger_def schedule_def fetchSemanticTokensNow_def settle_def dispose_def
        setSemanticTokens_def Let_def split: option.splits)

lemma tokens_run_disposed:
  "isDisposed s \<Longrightarrow> modelSemanticTokens (run ap th evs s) = modelSemanticTokens s"
  by (induction evs arbitrary: s) (simp_all add: isDisposed_step tokens_step_disposed)

text \<open>
  Claim C10. When a response is processed by a disposed scheduler, the stored response
  (if any) is disposed, the incoming token result (if any) is disposed and not stored,
  and \<^verbatim>\<open>setSemanticTokens\<close> of the document is not called; nor is it called by anything
  that happens after disposal. Disposal leaves no stored response and no token source,
  and a second disposal changes nothing: it cancels and releases nothing further.
\<close>

theorem disposed_scheduler_drops_response:
  assumes "isDisposed s"
  shows "setSemanticTokens ap th tokens legend pendingChanges s
           = s\<lparr>disposedResponses :=
                  disposedResponses s @ option_list (currentResponse s) @ option_list tokens,
                currentResponse := None\<rparr>
         \<and> modelSemanticTokens (setSemanticTokens ap th tokens legend pendingChanges s)
             = modelSemanticTokens s
         \<and> modelSemanticTokens (run ap th evs s) = modelSemanticTokens s
         \<and> currentResponse (dispose s0) = None
         \<and> currentRequestCancellationTokenSource (dispose s0) = None
         \<and> dispose (dispose s0) = dispose s0"
  using assms tokens_run_disposed [of s ap th evs]
  by (simp add: setSemanticTokens_def Let_def dispose_def)

theorem disposed_scheduler_drops_response_witness:
  "isDisposed (dispose newModelSemanticColoring)
   \<and> setSemanticTokens (\<lambda>r t a. a) (\<lambda>ty ms. Some 77) (Some \<lparr>areas = []\<rparr>)
        \<lparr>tokenTypes = [], tokenModifiers = []\<rparr> [] (dispose newModelSemanticColoring)
      = (dispose newModelSemanticColoring)\<lparr>disposedResponses := [\<lparr>areas = []\<rparr>]\<rparr>
   \<and> modelSemanticTokens (run (\<lambda>r t a. a) (\<lambda>ty ms. Some 77)
        [ProviderResolved 0 (Some \<lparr>areas = []\<rparr>), ThemeChanged, DebounceElapsed None]
        (dispose newModelSemanticColoring)) = []"
proof -
  have h: "isDisposed (dispose newModelSemanticColoring)" by (simp add: dispose_def)
  have e: "disposedResponses (dispose newModelSemanticColoring) = []"
    "currentResponse (dispose newModelSemanticColoring) = None"
    "modelSemanticTokens (dispose newModelSemanticColoring) = []"
    by (simp_all add: dispose_def newModelSemanticColoring_def)
  from disposed_scheduler_drops_response [OF h, of "\<lambda>r t a. a" "\<lambda>ty ms. Some 77"
      "Some \<lparr>areas = []\<rparr>" "\<lparr>tokenTypes = [], tokenModifiers = []\<rparr>" "[]"
      "[ProviderResolved 0 (Some \<lparr>areas = []\<rparr>), ThemeChanged, DebounceElapsed None]"] e h
  show ?thesis by simp
qed

text \<open>
  A rejected request is treated as a request resolved with nothing, but for the error
  that is logged.
\<close>

lemma rejected_like_empty_response:
  assumes "find (\<lambda>r. r_token r = token) (requests s) \<noteq> None"
  shows "step ap th (ProviderRejected token err) s
         = (step ap th (ProviderResolved token None) s)
             \<lparr>unexpectedErrors := unexpectedErrors s @ [err]\<rparr>"
  using assms
  by (auto simp: settle_def setSemanticTokens_def Let_def split: option.splits)

text \<open>
  Claim C4, where the code departs from it. A rejected request never arms the debounce
  timer, whatever was accumulated: the timer is after the rejection as it was before.
  In the run below a content change arrives during the request, the timer it armed
  elapses while the request is still in flight, and the request is then rejected: the
  error is logged, the in-flight state is cleared, the document's tokens are cleared,
  and the scheduler is idle with the accumulated edit dropped.
\<close>

theorem rejected_request_not_rescheduled:
  "fetchScheduled (step ap th (ProviderRejected token err) s) = fetchScheduled s
   \<and> map r_pendingChanges (requests (run ap th
        [DebounceElapsed (Some p), ContentChanged e, DebounceElapsed (Some p)]
        newModelSemanticColoring)) = [[e]]
   \<and> run ap th [DebounceElapsed (Some p), ContentChanged e, DebounceElapsed (Some p),
                 ProviderRejected 0 err] newModelSemanticColoring
     = newModelSemanticColoring\<lparr>fetchScheduled := False, providerCalls := 1,
          unexpectedErrors := [err], modelSemanticTokens := [None]\<rparr>"
  by (simp add: settle_def setSemanticTokens_def Let_def newModelSemanticColoring_def
      trigger_def schedule_def fetchSemanticTokensNow_def pushPending_def split: option.splits)

lemma reachable_inv: "schedulerInvariant (run ap th evs newModelSemanticColoring)"
  by (rule inv_run [OF inv_new])

text \<open>
  Claim C2, as amended. In every state a scheduler can reach, at most one provider call
  is outstanding. While a request is in flight, a trigger (content change, registry
  change or theme change) starts no provider call: it only arms the debounce timer;
  and the timer elapsing starts nothing either. When the request in flight completes
  with a token result and content changes were accumulated during it, the timer is
  armed, so that one follow-up fetch is pending, and no call is outstanding.
\<close>

theorem one_request_in_flight:
  assumes reach: "s = run ap th evs newModelSemanticColoring"
  shows "length (requests s) \<le> 1
     \<and> (currentRequestCancellationTokenSource s = Some token \<longrightarrow>
          (\<forall>ev. ev = ContentChanged e \<or> ev = ProviderRegistryChanged \<or> ev = ThemeChanged \<longrightarrow>
              providerCalls (step ap th ev s) = providerCalls s
            \<and> map r_token (requests (step ap th ev s)) = [token]
            \<and> currentRequestCancellationTokenSource (step ap th ev s) = Some token
            \<and> fetchScheduled (step ap th ev s))
        \<and> step ap th (DebounceElapsed provider) s = s\<lparr>fetchScheduled := False\<rparr>
        \<and> (\<forall>r. requests s = [r] \<and> r_pendingChanges r \<noteq> [] \<longrightarrow>
              fetchScheduled (step ap th (ProviderResolved token (Some response)) s)
            \<and> requests (step ap th (ProviderResolved token (Some response)) s) = []
            \<and> currentRequestCancellationTokenSource
                 (step ap th (ProviderResolved token (Some response)) s) = None
            \<and> providerCalls (step ap th (ProviderResolved token (Some response)) s)
                 = providerCalls s))"
proof -
  have i: "schedulerInvariant s" using reach reachable_inv by simp
  have A: "length (requests s) \<le> 1" using i by (simp add: schedulerInvariant_def)
  have BCD: "(\<forall>ev. ev = ContentChanged e \<or> ev = ProviderRegistryChanged \<or> ev = ThemeChanged \<longrightarrow>
              providerCalls (step ap th ev s) = providerCalls s
            \<and> map r_token (requests (step ap th ev s)) = [token]
            \<and> currentRequestCancellationTokenSource (step ap th ev s) = Some token
            \<and> fetchScheduled (step ap th ev s))
        \<and> step ap th (DebounceElapsed provider) s = s\<lparr>fetchScheduled := False\<rparr>
        \<and> (\<forall>r. requests s = [r] \<and> r_pendingChanges r \<noteq> [] \<longrightarrow>
              fetchScheduled (step ap th (ProviderResolved token (Some response)) s)
            \<and> requests (step ap th (ProviderResolved token (Some response)) s) = []
            \<and> currentRequestCancellationTokenSource
                 (step ap th (ProviderResolved token (Some response)) s) = None
            \<and> providerCalls (step ap th (ProviderResolved token (Some response)) s)
                 = providerCalls s)"
    if inflight: "currentRequestCancellationTokenSource s = Some token"
  proof -
    have nd: "\<not> isDisposed s" using i inflight by (auto simp: schedulerInvariant_def)
    have reg: "registered s" using i nd by (simp add: schedulerInvariant_def)
    have rq: "map r_token (requests s) = [token]"
      using i nd inflight by (simp add: schedulerInvariant_def)
    have B: "providerCalls (step ap th ev s) = providerCalls s
          \<and> map r_token (requests (step ap th ev s)) = [token]
          \<and> currentRequestCancellationTokenSource (step ap th ev s) = Some token
          \<and> fetchScheduled (step ap th ev s)"
      if "ev = ContentChanged e \<or> ev = ProviderRegistryChanged \<or> ev = ThemeChanged" for ev
      using that reg rq inflight
      by (auto simp: trigger_def schedule_def pushPending_def comp_def)
    have C: "step ap th (DebounceElapsed provider) s = s\<lparr>fetchScheduled := False\<rparr>"
      using inflight by (simp add: fetchSemanticTokensNow_def)
    have D: "fetchScheduled (step ap th (ProviderResolved token (Some response)) s)
          \<and> requests (step ap th (ProviderResolved token (Some response)) s) = []
          \<and> currentRequestCancellationTokenSource
               (step ap th (ProviderResolved token (Some response)) s) = None
          \<and> providerCalls (step ap th (ProviderResolved token (Some response)) s)
               = providerCalls s"
      if "requests s = [r] \<and> r_pendingChanges r \<noteq> []" for r
      using that rq nd
      by (simp add: settle_def setSemanticTokens_def Let_def schedule_def)
    show ?thesis using B C D by blast
  qed
  show ?thesis using A BCD by blast
qed

theorem one_request_in_flight_witness:
  "currentRequestCancellationTokenSource
      (run (\<lambda>r t a. a) (\<lambda>ty ms. Some 77)
         [DebounceElapsed (Some \<lparr>getLegend = \<lparr>tokenTypes = [], tokenModifiers = []\<rparr>\<rparr>),
          ContentChanged \<lparr>changes = []\<rparr>] newModelSemanticColoring) = Some 0
   \<and> length (requests
      (run (\<lambda>r t a. a) (\<lambda>ty ms. Some 77)
         [DebounceElapsed (Some \<lparr>getLegend = \<lparr>tokenTypes = [], tokenModifiers = []\<rparr>\<rparr>),
          ContentChanged \<lparr>changes = []\<rparr>] newModelSemanticColoring)) \<le> 1
   \<and> providerCalls (step (\<lambda>r t a. a) (\<lambda>ty ms. Some 77) ThemeChanged
      (run (\<lambda>r t a. a) (\<lambda>ty ms. Some 77)
         [DebounceElapsed (Some \<lparr>getLegend = \<lparr>tokenTypes = [], tokenModifiers = []\<rparr>\<rparr>),
          ContentChanged \<lparr>changes = []\<rparr>] newModelSemanticColoring)) = 1
   \<and> fetchScheduled (step (\<lambda>r t a. a) (\<lambda>ty ms. Some 77)
        (ProviderResolved 0 (Some \<lparr>areas = []\<rparr>))
      (run (\<lambda>r t a. a) (\<lambda>ty ms. Some 77)
         [DebounceElapsed (Some \<lparr>getLegend = \<lparr>tokenTypes = [], tokenModifiers = []\<rparr>\<rparr>),
          ContentChanged \<lparr>changes = []\<rparr>] newModelSemanticColoring))"
proof -
  let ?s = "run (\<lambda>r t a. a) (\<lambda>ty ms. Some 77)
         [DebounceElapsed (Some \<lparr>getLegend = \<lparr>tokenTypes = [], tokenModifiers = []\<rparr>\<rparr>),
          ContentChanged \<lparr>changes = []\<rparr>] newModelSemanticColoring"
  have h: "currentRequestCancellationTokenSource ?s = Some 0" by code_simp
  have r: "requests ?s = [\<lparr>r_token = 0, r_legend = \<lparr>tokenTypes = [], tokenModifiers = []\<rparr>,
                    r_pendingChanges = [\<lparr>changes = []\<rparr>]\<rparr>]
           \<and> r_pendingChanges \<lparr>r_token = 0, r_legend = \<lparr>tokenTypes = [], tokenModifiers = []\<rparr>,
                    r_pendingChanges = [\<lparr>changes = []\<rparr>]\<rparr> \<noteq> []"
    by code_simp
  have pc: "providerCalls ?s = 1" by code_simp
  note T = one_request_in_flight [OF refl, of "\<lambda>r t a. a" "\<lambda>ty ms. Some 77"
      "[DebounceElapsed (Some \<lparr>getLegend = \<lparr>tokenTypes = [], tokenModifiers = []\<rparr>\<rparr>),
        ContentChanged \<lparr>changes = []\<rparr>]" 0 "\<lparr>changes = []\<rparr>" None "\<lparr>areas = []\<rparr>"]
  from T have a: "length (requests ?s) \<le> 1" by blast
  from T h have b: "providerCalls (step (\<lambda>r t a. a) (\<lambda>ty ms. Some 77) ThemeChanged ?s)
                  = providerCalls ?s" by blast
  from T h r have c: "fetchScheduled (step (\<lambda>r t a. a) (\<lambda>ty ms. Some 77)
        (ProviderResolved 0 (Some \<lparr>areas = []\<rparr>)) ?s)" by blast
  from h a b c pc show ?thesis by (simp only: simp_thms)
qed

text \<open>
  The claim C2 as it was stated promises one follow-up fetch after every trigger during
  a request in flight. A theme change during the request, whose timer elapses before
  the request completes, gets none: after the response the timer is not armed and no
  call is outstanding.
\<close>

theorem trigger_in_flight_without_follow_up:
  "currentRequestCancellationTokenSource
      (run (\<lambda>r t a. a) (\<lambda>ty ms. Some 77)
         [DebounceElapsed (Some \<lparr>getLegend = \<lparr>tokenTypes = [''comment''], tokenModifiers = []\<rparr>\<rparr>)]
         newModelSemanticColoring) = Some 0
   \<and> run (\<lambda>r t a. a) (\<lambda>ty ms. Some 77)
        [DebounceElapsed (Some \<lparr>getLegend = \<lparr>tokenTypes = [''comment''], tokenModifiers = []\<rparr>\<rparr>),
         ThemeChanged,
         DebounceElapsed (Some \<lparr>getLegend = \<lparr>tokenTypes = [''comment''], tokenModifiers = []\<rparr>\<rparr>),
         ProviderResolved 0 (Some \<lparr>areas = []\<rparr>)]
        newModelSemanticColoring
     = newModelSemanticColoring\<lparr>fetchScheduled := False, providerCalls := 1,
          currentResponse := Some \<lparr>areas = []\<rparr>, modelSemanticTokens := [Some []]\<rparr>"
  by (simp add: settle_def setSemanticTokens_def Let_def newModelSemanticColoring_def
      trigger_def schedule_def fetchSemanticTokensNow_def pushPending_def)

end
